theory Spec2Isabelle
  imports
    Main
    "HOL-Library.Char_ord"
    "HOL-Library.List_Lexorder"
    "HOL-Library.AList"
    "HOL-Library.Sublist"
begin

section \<open>The generator of gen/generator.go\<close>

text \<open>
  A shallow embedding of \<^verbatim>\<open>src/gen/generator.go\<close>: the \<^verbatim>\<open>Generator\<close> struct is a
  record, each method a function that takes the generator and returns it updated, each
  unbounded \<^verbatim>\<open>for\<close> loop a recursive function with its termination proof (or with
  fuel, for the loop of \<^verbatim>\<open>Run\<close>, which need not end).

  Go strings are modelled as \<open>string\<close>, one \<open>char\<close> per rune, for the ASCII range: the
  classification of package \<^verbatim>\<open>unicode\<close> is written out for ASCII only, and a
  character above \<open>0x7f\<close> is neither letter nor digit nor cased here.
\<close>

subsection \<open>What the file uses of Go's standard library\<close>

definition IsUpper :: "char \<Rightarrow> bool" where
  "IsUpper c \<longleftrightarrow> CHR ''A'' \<le> c \<and> c \<le> CHR ''Z''"

definition IsLower :: "char \<Rightarrow> bool" where
  "IsLower c \<longleftrightarrow> CHR ''a'' \<le> c \<and> c \<le> CHR ''z''"

definition IsLetter :: "char \<Rightarrow> bool" where
  "IsLetter c \<longleftrightarrow> IsUpper c \<or> IsLower c"

definition IsDigit :: "char \<Rightarrow> bool" where
  "IsDigit c \<longleftrightarrow> CHR ''0'' \<le> c \<and> c \<le> CHR ''9''"

definition ToLower :: "char \<Rightarrow> char" where
  "ToLower c = (if IsUpper c then char_of (of_char c + (32::nat)) else c)"

text \<open>\<^verbatim>\<open>fmt.Sprint(i)\<close> for an \<^verbatim>\<open>int\<close> that is not negative: its decimal digits. The
  counters of this file start at 0 or 1 and only grow; they would have to pass \<open>2^63\<close>
  to wrap, so they are natural numbers here.\<close>

definition digit :: "nat \<Rightarrow> char" where
  "digit d = char_of (of_char (CHR ''0'') + d)"

fun Sprint :: "nat \<Rightarrow> string" where
  "Sprint n = (if n < 10 then [digit n] else Sprint (n div 10) @ [digit (n mod 10)])"

text \<open>\<^verbatim>\<open>path.Base\<close>: the last element of a slash-separated path, after the trailing
  slashes are removed; \<^verbatim>\<open>"."\<close> for the empty path and \<^verbatim>\<open>"/"\<close> for a path of
  slashes only.\<close>

definition Base :: "string \<Rightarrow> string" where
  "Base path =
     (if path = [] then ''.''
      else let stripped = rev (dropWhile (\<lambda>c. c = CHR ''/'') (rev path));
               elem = rev (takeWhile (\<lambda>c. c \<noteq> CHR ''/'') (rev stripped))
           in if elem = [] then ''/'' else elem)"

text \<open>\<^verbatim>\<open>strings.HasPrefix(s, prefix)\<close>.\<close>

definition HasPrefix :: "string \<Rightarrow> string \<Rightarrow> bool" where
  "HasPrefix s pre \<longleftrightarrow> prefix pre s"

subsection \<open>Go maps and the order of \<^verbatim>\<open>range\<close>\<close>

text \<open>
  A Go map is kept as an association list; the map it stands for is \<open>map_of\<close> of it,
  \<^verbatim>\<open>m[k] = v\<close> is \<open>AList.update k v\<close>. Go does not specify the order in which
  \<^verbatim>\<open>range\<close> visits a map, and it may differ from one loop to the next. Every
  \<^verbatim>\<open>range\<close> whose result can depend on the order therefore takes the order as a
  parameter \<open>ks\<close>: the keys as the runtime happens to visit them. Keys of the map that
  \<open>ks\<close> does not mention follow in the order of the list. Every \<open>ks\<close> gives an
  enumeration of the map, each entry once, and every enumeration comes from some \<open>ks\<close>.
\<close>

definition range_keys :: "'k list \<Rightarrow> ('k \<times> 'v) list \<Rightarrow> 'k list" where
  "range_keys ks m =
     filter (\<lambda>k. k \<in> fst ` set m) (remdups ks) @
     filter (\<lambda>k. k \<notin> set ks) (remdups (map fst m))"

definition range_map :: "'k list \<Rightarrow> ('k \<times> 'v) list \<Rightarrow> ('k \<times> 'v) list" where
  "range_map ks m = map (\<lambda>k. (k, the (map_of m k))) (range_keys ks m)"

text \<open>The zero value of a missing \<^verbatim>\<open>map[string]string\<close> entry is the empty string.\<close>

definition lookup_string :: "(string \<times> string) list \<Rightarrow> string \<Rightarrow> string" where
  "lookup_string m k = (case map_of m k of None \<Rightarrow> [] | Some v \<Rightarrow> v)"

subsection \<open>Types and the generator\<close>

text \<open>
  A \<^verbatim>\<open>reflect.Type\<close> is an opaque handle compared by identity. The file reads three
  things of it: \<^verbatim>\<open>PkgPath()\<close>, \<^verbatim>\<open>Name()\<close> and \<^verbatim>\<open>String()\<close>. Two distinct types
  may agree on all three (two unnamed struct types have the empty name and path), so
  the handle carries an identity of its own.
\<close>

datatype rtype = RType (TypeId: nat) (PkgPath: string) (Name: string) (String: string)

datatype FieldNamer = DefaultFieldNamer | SnakeCaseFieldNamer

datatype error = Error string

record generator =
  out :: string
  pkgName :: string
  pkgPath :: string
  buildTags :: string
  varCounter :: nat
  omitEmpty :: bool
  namer :: FieldNamer
  importsMap :: "(string \<times> string) list"
  marshallers :: "rtype set"
  typesSeen :: "rtype set"
  typesUnseen :: "rtype list"
  functionNames :: "(string \<times> rtype) list"

definition pkgWriter :: string where
  "pkgWriter = ''github.com/mailru/easyjson/jwriter''"

definition pkgLexer :: string where
  "pkgLexer = ''github.com/mailru/easyjson/jlexer''"

definition NewGenerator :: generator where
  "NewGenerator =
     \<lparr> out = [], pkgName = [], pkgPath = [], buildTags = [], varCounter = 0,
       omitEmpty = False, namer = DefaultFieldNamer,
       importsMap = [(pkgWriter, ''jwriter''), (pkgLexer, ''jlexer''),
                     (''encoding/json'', ''json'')],
       marshallers = {}, typesSeen = {}, typesUnseen = [], functionNames = [] \<rparr>"

definition SetPkg :: "string \<Rightarrow> string \<Rightarrow> generator \<Rightarrow> generator" where
  "SetPkg name path g = g\<lparr>pkgName := name, pkgPath := path\<rparr>"

definition SetBuildTags :: "string \<Rightarrow> generator \<Rightarrow> generator" where
  "SetBuildTags tags g = g\<lparr>buildTags := tags\<rparr>"

definition SetFieldNamer :: "FieldNamer \<Rightarrow> generator \<Rightarrow> generator" where
  "SetFieldNamer n g = g\<lparr>namer := n\<rparr>"

definition UseSnakeCase :: "generator \<Rightarrow> generator" where
  "UseSnakeCase g = g\<lparr>namer := SnakeCaseFieldNamer\<rparr>"

definition OmitEmpty :: "generator \<Rightarrow> generator" where
  "OmitEmpty g = g\<lparr>omitEmpty := True\<rparr>"

subsection \<open>The alias allocator: pkgAlias, getType\<close>

text \<open>\<open>Sprint\<close> is injective, which is what makes the unbounded searches for a free
  name below end: the candidates are pairwise distinct and the map is finite.\<close>

declare Sprint.simps [simp del]

text \<open>The scan \<^verbatim>\<open>for _, v := range g.imports { if v == alias ... }\<close>: whether some
  entry of the map has the value \<open>alias\<close>. The answer is the same in every order.\<close>

definition alias_exists :: "(string \<times> string) list \<Rightarrow> string \<Rightarrow> bool" where
  "alias_exists m alias = list_ex (\<lambda>(p, v). v = alias) (range_map [] m)"

text \<open>The candidate the loop of \<^verbatim>\<open>pkgAlias\<close> tries in round \<open>i\<close>.\<close>

definition alias_candidate :: "string \<Rightarrow> nat \<Rightarrow> string" where
  "alias_candidate path i = Base path @ (if i > 0 then Sprint i else [])"

lemma of_char_digit: "d < 10 \<Longrightarrow> of_char (digit d) = 48 + d"
  by (simp add: digit_def)

definition undigits :: "string \<Rightarrow> nat" where
  "undigits s = foldl (\<lambda>a c. 10 * a + (of_char c - 48)) 0 s"

lemma undigits_Sprint: "undigits (Sprint n) = n"
proof (induction n rule: Sprint.induct)
  case (1 n)
  show ?case
  proof (cases "n < 10")
    case True
    then show ?thesis by (simp add: Sprint.simps [of n] undigits_def of_char_digit)
  next
    case False
    with 1 have "undigits (Sprint (n div 10)) = n div 10" by simp
    with False show ?thesis
      by (simp add: Sprint.simps [of n] undigits_def of_char_digit)
  qed
qed

lemma Sprint_inj: "Sprint m = Sprint n \<Longrightarrow> m = n"
  by (metis undigits_Sprint)

lemma Sprint_not_Nil: "Sprint n \<noteq> []"
  by (subst Sprint.simps) simp

lemma alias_candidate_inj: "alias_candidate p i = alias_candidate p j \<Longrightarrow> i = j"
  using Sprint_not_Nil [of i] Sprint_not_Nil [of j]
  by (auto simp: alias_candidate_def split: if_splits dest: Sprint_inj)

lemma finite_indices:
  assumes "\<And>i j. f i = f j \<Longrightarrow> i = j" and "finite S"
  shows "finite {j::nat. f j \<in> S}"
proof -
  have "inj f" using assms(1) by (auto simp: inj_def)
  then have "finite (f -` S)" using assms(2) by (rule finite_vimageI[rotated])
  then show ?thesis by (simp add: vimage_def)
qed

lemma candidates_decrease:
  assumes inj: "\<And>i j. f i = f j \<Longrightarrow> i = j" and fin: "finite S" and hit: "f i \<in> S"
  shows "card {j::nat. Suc i \<le> j \<and> f j \<in> S} < card {j. i \<le> j \<and> f j \<in> S}"
proof (rule psubset_card_mono)
  have "{j. i \<le> j \<and> f j \<in> S} \<subseteq> {j. f j \<in> S}" by auto
  then show "finite {j. i \<le> j \<and> f j \<in> S}"
    using finite_indices [OF inj fin] by (rule finite_subset)
  have "i \<in> {j. i \<le> j \<and> f j \<in> S}" and "i \<notin> {j. Suc i \<le> j \<and> f j \<in> S}"
    using hit by auto
  then have "{j. Suc i \<le> j \<and> f j \<in> S} \<noteq> {j. i \<le> j \<and> f j \<in> S}"
    by metis
  moreover have "{j. Suc i \<le> j \<and> f j \<in> S} \<subseteq> {j. i \<le> j \<and> f j \<in> S}"
    by auto
  ultimately show "{j. Suc i \<le> j \<and> f j \<in> S} \<subset> {j. i \<le> j \<and> f j \<in> S}"
    by (simp add: psubset_eq)
qed

function pkgAlias_loop :: "(string \<times> string) list \<Rightarrow> string \<Rightarrow> nat \<Rightarrow> string" where
  "pkgAlias_loop m path i =
     (let alias = Base path @ (if i > 0 then Sprint i else [])
      in if alias_exists m alias then pkgAlias_loop m path (i + 1) else alias)"
  by pat_completeness auto
termination
proof (relation "measure (\<lambda>(m, p, i). card {j. i \<le> j \<and> alias_candidate p j \<in> {a. alias_exists m a}})")
  show "wf (measure (\<lambda>(m, p, i). card {j. i \<le> j \<and> alias_candidate p j \<in> {a. alias_exists m a}}))" by simp
next
  fix m :: "(string \<times> string) list" and path i x
  assume x: "x = Base path @ (if 0 < i then Sprint i else [])" and ex: "alias_exists m x"
  have fin: "finite {a. alias_exists m a}"
  proof -
    have "{a. alias_exists m a} \<subseteq> snd ` set (range_map [] m)"
      by (force simp: alias_exists_def list_ex_iff)
    then show ?thesis by (rule finite_subset) simp
  qed
  have "alias_candidate path i \<in> {a. alias_exists m a}"
    using x ex by (simp add: alias_candidate_def)
  from candidates_decrease [of "alias_candidate path", OF alias_candidate_inj fin this]
  show "((m, path, i + 1), (m, path, i)) \<in> measure (\<lambda>(m, p, i). card {j. i \<le> j \<and> alias_candidate p j \<in> {a. alias_exists m a}})"
    by simp
qed

declare pkgAlias_loop.simps [simp del]

definition pkgAlias :: "string \<Rightarrow> generator \<Rightarrow> string \<times> generator" where
  "pkgAlias path g =
     (if lookup_string (importsMap g) path \<noteq> []
      then (lookup_string (importsMap g) path, g)
      else let alias = pkgAlias_loop (importsMap g) path 0
           in (alias, g\<lparr>importsMap := AList.update path alias (importsMap g)\<rparr>))"


text \<open>The state of the alias table that \<^verbatim>\<open>NewGenerator\<close> sets up and \<^verbatim>\<open>pkgAlias\<close>
  keeps: no alias is empty and no two paths share an alias.\<close>

definition imports_ok :: "(string \<times> string) list \<Rightarrow> bool" where
  "imports_ok m \<longleftrightarrow>
     distinct (map snd (range_map [] m)) \<and> [] \<notin> set (map snd (range_map [] m))"

text \<open>A run's calls of \<^verbatim>\<open>pkgAlias\<close>, in order, with the aliases they return.\<close>

fun pkgAlias_calls :: "string list \<Rightarrow> generator \<Rightarrow> string list \<times> generator" where
  "pkgAlias_calls [] g = ([], g)"
| "pkgAlias_calls (p # ps) g =
     (let (a, g1) = pkgAlias p g; (as, g2) = pkgAlias_calls ps g1 in (a # as, g2))"

definition getType :: "rtype \<Rightarrow> generator \<Rightarrow> string \<times> generator" where
  "getType t g =
     (if Name t = [] \<or> PkgPath t = [] then (String t, g)
      else if PkgPath t = pkgPath g then (Name t, g)
      else let (alias, g1) = pkgAlias (PkgPath t) g in (alias @ ''.'' @ Name t, g1))"

definition uniqueVarName :: "generator \<Rightarrow> string \<times> generator" where
  "uniqueVarName g =
     (let g1 = g\<lparr>varCounter := varCounter g + 1\<rparr> in (''v'' @ Sprint (varCounter g1), g1))"

subsection \<open>The symbol namer: safeName, functionName\<close>

definition safeName :: "rtype \<Rightarrow> string" where
  "safeName t =
     (let name = PkgPath t @ (if Name t = [] then ''anonymous'' else ''.'' @ Name t)
      in map (\<lambda>c. if IsLetter c \<or> IsDigit c then c else CHR ''_'') name)"

text \<open>The last loop of \<^verbatim>\<open>functionName\<close>: \<^verbatim>\<open>for i := 1; ; i++\<close>, until \<open>name\<close> followed
  by \<open>i\<close> is not a key of the map.\<close>

function functionName_loop :: "(string \<times> rtype) list \<Rightarrow> string \<Rightarrow> nat \<Rightarrow> string" where
  "functionName_loop m name i =
     (let nm = name @ Sprint i
      in if map_of m nm \<noteq> None then functionName_loop m name (i + 1) else nm)"
  by pat_completeness auto
termination
proof (relation "measure (\<lambda>(m, name, i). card {j. i \<le> j \<and> name @ Sprint j \<in> fst ` set m})")
  show "wf (measure (\<lambda>(m, name, i). card {j. i \<le> j \<and> name @ Sprint j \<in> fst ` set m}))"
    by simp
next
  fix m :: "(string \<times> rtype) list" and name i x
  assume x: "x = name @ Sprint i" and taken: "map_of m x \<noteq> None"
  have inj: "\<And>i j. name @ Sprint i = name @ Sprint j \<Longrightarrow> i = j"
    by (simp add: Sprint_inj)
  have hit: "name @ Sprint i \<in> fst ` set m"
    using x taken by (simp add: map_of_eq_None_iff)
  from candidates_decrease [of "\<lambda>j. name @ Sprint j", OF inj _ hit]
  show "((m, name, i + 1), (m, name, i)) \<in>
        measure (\<lambda>(m, name, i). card {j. i \<le> j \<and> name @ Sprint j \<in> fst ` set m})"
    by simp
qed

declare functionName_loop.simps [simp del]

text \<open>\<^verbatim>\<open>functionName\<close>. Its second loop returns the first entry that \<^verbatim>\<open>range\<close> visits
  whose type is \<open>t\<close> and whose name starts with the prefix, so it takes the order \<open>ks\<close>
  of that \<^verbatim>\<open>range\<close>.\<close>

definition functionName :: "string list \<Rightarrow> string \<Rightarrow> rtype \<Rightarrow> generator \<Rightarrow> string \<times> generator" where
  "functionName ks pre t g =
     (let name = pre @ safeName t
      in if map_of (functionNames g) name = None \<or> map_of (functionNames g) name = Some t
         then (name, g\<lparr>functionNames := AList.update name t (functionNames g)\<rparr>)
         else case find (\<lambda>(name1, t1). t1 = t \<and> HasPrefix name1 pre)
                        (range_map ks (functionNames g)) of
                Some (name1, t1) \<Rightarrow> (name1, g)
              | None \<Rightarrow>
                  let nm = functionName_loop (functionNames g) name 1
                  in (nm, g\<lparr>functionNames := AList.update nm t (functionNames g)\<rparr>))"

text \<open>A run's calls of \<^verbatim>\<open>functionName\<close>, in order, with the names they return. A call
  is the order of its \<^verbatim>\<open>range\<close>, the prefix and the type.\<close>

type_synonym name_call = "string list \<times> string \<times> rtype"

fun functionName_calls :: "name_call list \<Rightarrow> generator \<Rightarrow> string list \<times> generator" where
  "functionName_calls [] g = ([], g)"
| "functionName_calls ((ks, pre, t) # cs) g =
     (let (n, g1) = functionName ks pre t g; (ns, g2) = functionName_calls cs g1
      in (n # ns, g2))"


definition call_prefix :: "name_call \<Rightarrow> string" where
  "call_prefix c = fst (snd c)"

definition call_type :: "name_call \<Rightarrow> rtype" where
  "call_type c = snd (snd c)"

text \<open>No prefix used by the calls is a proper prefix of another.\<close>

definition prefixes_incomparable :: "name_call list \<Rightarrow> bool" where
  "prefixes_incomparable cs \<longleftrightarrow>
     (\<forall>c\<in>set cs. \<forall>d\<in>set cs.
        prefix (call_prefix c) (call_prefix d) \<longrightarrow> call_prefix c = call_prefix d)"

text \<open>What \<^verbatim>\<open>functionName\<close> keeps of the registry when the prefixes in use, \<open>P\<close>, are
  pairwise incomparable: a name that starts with a prefix \<open>q\<close> of \<open>P\<close> was registered
  under \<open>q\<close>, so the canonical name for \<open>q\<close> and its type is taken, and a type owns at
  most one name under each prefix.\<close>

definition registry_ok :: "string set \<Rightarrow> (string \<rightharpoonup> rtype) \<Rightarrow> bool" where
  "registry_ok P M \<longleftrightarrow>
     (\<forall>q\<in>P. \<forall>n t. M n = Some t \<and> prefix q n \<longrightarrow> M (q @ safeName t) \<noteq> None) \<and>
     (\<forall>q\<in>P. \<forall>n n' t. M n = Some t \<and> M n' = Some t \<and> prefix q n \<and> prefix q n' \<longrightarrow> n = n')"

subsection \<open>The traversal: addType, Add, Run\<close>

text \<open>\<^verbatim>\<open>addType\<close> and \<^verbatim>\<open>Add\<close>. \<^verbatim>\<open>typesSeen\<close> and \<^verbatim>\<open>marshallers\<close> are maps to
  \<^verbatim>\<open>bool\<close> in which only \<^verbatim>\<open>true\<close> is ever stored: sets. \<^verbatim>\<open>Add\<close> takes the type of its
  argument, which is all it uses of it.\<close>

definition addType :: "rtype \<Rightarrow> generator \<Rightarrow> generator" where
  "addType t g =
     (if t \<in> typesSeen g then g
      else if t \<in> set (typesUnseen g) then g
      else g\<lparr>typesUnseen := typesUnseen g @ [t]\<rparr>)"

definition Add :: "rtype \<Rightarrow> generator \<Rightarrow> generator" where
  "Add t g = (let g1 = addType t g in g1\<lparr>marshallers := insert t (marshallers g1)\<rparr>)"

text \<open>
  Modelled from the spec: the four emission collaborators \<^verbatim>\<open>genStructDecoder\<close>,
  \<^verbatim>\<open>genStructEncoder\<close>, \<^verbatim>\<open>genStructMarshaller\<close> and \<^verbatim>\<open>genStructUnmarshaller\<close> are
  methods of \<^verbatim>\<open>Generator\<close> that \<^verbatim>\<open>Run\<close> calls and that are defined outside
  \<^verbatim>\<open>generator.go\<close>. By the spec each appends code to the shared output buffer, may
  request newly discovered types (\<^verbatim>\<open>addType\<close>) as a side effect, and returns an error or
  none. Here a collaborator is any function that, from the type and the generator it is
  called on, gives the calls it makes to the methods of this file, in order, and the error
  it returns. It is a parameter of the loop: nothing is assumed of the code it writes or
  of the types it requests.
\<close>

datatype action =
    CallAddType rtype
  | WriteOut string
  | CallFunctionName "string list" string rtype
  | CallGetType rtype
  | CallPkgAlias string
  | CallUniqueVarName

fun perform :: "action \<Rightarrow> generator \<Rightarrow> generator" where
  "perform (CallAddType t) g = addType t g"
| "perform (WriteOut s) g = g\<lparr>out := out g @ s\<rparr>"
| "perform (CallFunctionName ks pre t) g = snd (functionName ks pre t g)"
| "perform (CallGetType t) g = snd (getType t g)"
| "perform (CallPkgAlias p) g = snd (pkgAlias p g)"
| "perform CallUniqueVarName g = snd (uniqueVarName g)"

type_synonym collaborator = "rtype \<Rightarrow> generator \<Rightarrow> action list \<times> error option"

record emitters =
  genStructDecoder :: collaborator
  genStructEncoder :: collaborator
  genStructMarshaller :: collaborator
  genStructUnmarshaller :: collaborator

text \<open>A call of a collaborator: the calls it makes, the error it returns, and the
  generator after its calls.\<close>

definition invoke ::
  "collaborator \<Rightarrow> rtype \<Rightarrow> generator \<Rightarrow> action list \<times> error option \<times> generator" where
  "invoke c t g = (case c t g of (acts, err) \<Rightarrow> (acts, err, fold perform acts g))"

text \<open>The loop of \<^verbatim>\<open>Run\<close> also reports which collaborators it called: for which type,
  what the collaborator did and with what result, in order. That is what the properties of
  the traversal are about. One round of the loop, after the type is popped, is \<open>visit\<close>.\<close>

datatype emitter = Decoder | Encoder | Marshaller | Unmarshaller

datatype event =
  Event (event_emitter: emitter) (event_type: rtype) (event_actions: "action list")
        (event_error: "error option")

definition visit :: "emitters \<Rightarrow> rtype \<Rightarrow> generator \<Rightarrow> event list \<times> error option \<times> generator" where
  "visit em t g =
     (case invoke (genStructDecoder em) t g of
        (a1, Some err, g1) \<Rightarrow> ([Event Decoder t a1 (Some err)], Some err, g1)
      | (a1, None, g1) \<Rightarrow>
          (case invoke (genStructEncoder em) t g1 of
             (a2, Some err, g2) \<Rightarrow>
               ([Event Decoder t a1 None, Event Encoder t a2 (Some err)], Some err, g2)
           | (a2, None, g2) \<Rightarrow>
               if t \<notin> marshallers g2
               then ([Event Decoder t a1 None, Event Encoder t a2 None], None, g2)
               else
                 (case invoke (genStructMarshaller em) t g2 of
                    (a3, Some err, g3) \<Rightarrow>
                      ([Event Decoder t a1 None, Event Encoder t a2 None,
                        Event Marshaller t a3 (Some err)], Some err, g3)
                  | (a3, None, g3) \<Rightarrow>
                      (case invoke (genStructUnmarshaller em) t g3 of
                         (a4, Some err, g4) \<Rightarrow>
                           ([Event Decoder t a1 None, Event Encoder t a2 None,
                             Event Marshaller t a3 None, Event Unmarshaller t a4 (Some err)],
                            Some err, g4)
                       | (a4, None, g4) \<Rightarrow>
                           ([Event Decoder t a1 None, Event Encoder t a2 None,
                             Event Marshaller t a3 None, Event Unmarshaller t a4 None],
                            None, g4)))))"

text \<open>The loop \<^verbatim>\<open>for len(g.typesUnseen) > 0\<close>. A collaborator may request a new type
  in every round, so the loop need not end: it runs on fuel, one unit per round, and
  \<open>None\<close> is the loop still running when the fuel is spent. A result carries the calls made,
  the error that ended the loop, if any, and the generator.\<close>

fun run_loop :: "emitters \<Rightarrow> nat \<Rightarrow> generator \<Rightarrow> (event list \<times> error option \<times> generator) option" where
  "run_loop em 0 g = (if typesUnseen g = [] then Some ([], None, g) else None)"
| "run_loop em (Suc fuel) g =
     (if typesUnseen g = [] then Some ([], None, g)
      else let t = last (typesUnseen g);
               g0 = g\<lparr>typesUnseen := butlast (typesUnseen g),
                      typesSeen := insert t (typesSeen g)\<rparr>
           in case visit em t g0 of
                (tr, Some err, g1) \<Rightarrow> Some (tr, Some err, g1)
              | (tr, None, g1) \<Rightarrow>
                  (case run_loop em fuel g1 of
                     None \<Rightarrow> None
                   | Some (tr', r, g2) \<Rightarrow> Some (tr @ tr', r, g2)))"

text \<open>\<^verbatim>\<open>printHeader\<close> prints with \<^verbatim>\<open>fmt.Println\<close> and \<^verbatim>\<open>fmt.Printf\<close>, that is to the
  standard output of the process, while \<^verbatim>\<open>Run\<close> writes the buffer to the \<^verbatim>\<open>io.Writer\<close>
  it is given. The world outside the generator is the text on standard output and the
  content of an in-memory buffer apart from it; a writer is what \<^verbatim>\<open>Write\<close> does to the
  world and the error it returns.\<close>

record world =
  stdout :: string
  buffer :: string

type_synonym writer = "string \<Rightarrow> world \<Rightarrow> error option \<times> world"

definition os_Stdout :: writer where
  "os_Stdout p w = (None, w\<lparr>stdout := stdout w @ p\<rparr>)"

definition bytes_Buffer :: writer where
  "bytes_Buffer p w = (None, w\<lparr>buffer := buffer w @ p\<rparr>)"

text \<open>\<^verbatim>\<open>fmt.Println\<close> of strings: the operands separated by spaces, then a newline.
  \<^verbatim>\<open>%q\<close> of \<^verbatim>\<open>fmt.Printf\<close>: the string in double quotes, escaped as Go does for
  ASCII.\<close>

fun join_operands :: "string list \<Rightarrow> string" where
  "join_operands [] = []"
| "join_operands [x] = x"
| "join_operands (x # y # zs) = x @ '' '' @ join_operands (y # zs)"

definition Println :: "string list \<Rightarrow> string" where
  "Println operands = join_operands operands @ [CHR 0x0A]"

definition hex_digit :: "nat \<Rightarrow> char" where
  "hex_digit d = (if d < 10 then digit d else char_of (of_char (CHR ''a'') + (d - 10)))"

definition quote_rune :: "char \<Rightarrow> string" where
  "quote_rune c =
     (if c = CHR 0x22 \<or> c = CHR 0x5C then [CHR 0x5C, c]
      else if CHR 0x20 \<le> c \<and> c \<le> CHR 0x7E then [c]
      else if c = CHR 0x07 then [CHR 0x5C, CHR ''a'']
      else if c = CHR 0x08 then [CHR 0x5C, CHR ''b'']
      else if c = CHR 0x0C then [CHR 0x5C, CHR ''f'']
      else if c = CHR 0x0A then [CHR 0x5C, CHR ''n'']
      else if c = CHR 0x0D then [CHR 0x5C, CHR ''r'']
      else if c = CHR 0x09 then [CHR 0x5C, CHR ''t'']
      else if c = CHR 0x0B then [CHR 0x5C, CHR ''v'']
      else [CHR 0x5C, CHR ''x'', hex_digit (of_char c div 16), hex_digit (of_char c mod 16)])"

definition Quote :: "string \<Rightarrow> string" where
  "Quote s = [CHR 0x22] @ concat (map quote_rune s) @ [CHR 0x22]"

text \<open>\<^verbatim>\<open>printHeader\<close>. The first \<^verbatim>\<open>range\<close> over \<^verbatim>\<open>g.imports\<close> (in the order \<open>ks1\<close>)
  fills \<^verbatim>\<open>aliases\<close> and \<^verbatim>\<open>byAlias\<close>; \<^verbatim>\<open>aliases\<close> is sorted; the second \<^verbatim>\<open>range\<close>, again
  over \<^verbatim>\<open>g.imports\<close> (in the order \<open>ks2\<close>), prints one line per entry: the alias and
  \<^verbatim>\<open>byAlias[alias]\<close>. \<open>import_lines\<close> is the list of these lines, \<open>printHeader\<close> the text
  printed.\<close>

definition collect_aliases ::
  "(string \<times> string) list \<Rightarrow> string list \<times> (string \<times> string) list" where
  "collect_aliases entries =
     fold (\<lambda>(path, alias) (aliases, byAlias).
             (aliases @ [alias], AList.update alias path byAlias))
          entries ([], [])"

definition import_lines :: "string list \<Rightarrow> string list \<Rightarrow> generator \<Rightarrow> (string \<times> string) list" where
  "import_lines ks1 ks2 g =
     (let (aliases, byAlias) = collect_aliases (range_map ks1 (importsMap g));
          aliases = sort aliases
      in map (\<lambda>(path, alias). (alias, lookup_string byAlias alias))
             (range_map ks2 (importsMap g)))"

definition printHeader :: "string list \<Rightarrow> string list \<Rightarrow> generator \<Rightarrow> string" where
  "printHeader ks1 ks2 g =
     (if buildTags g \<noteq> [] then Println [''// +build '', buildTags g] @ Println [] else []) @
     Println [''package '', pkgName g] @
     Println [] @
     Println [''import (''] @
     concat (map (\<lambda>(alias, path). ''  '' @ alias @ '' '' @ Quote path @ [CHR 0x0A])
                 (import_lines ks1 ks2 g)) @
     Println ['')''] @
     Println [''''] @
     Println [''var _ = json.RawMessage{} // suppress unused package warning''] @
     Println []"

text \<open>\<^verbatim>\<open>Run\<close>: the loop on a fresh buffer; on an error of a collaborator that error is
  returned and nothing is printed or written; otherwise the header is printed to standard
  output and the buffer is written to \<open>wr\<close>, whose error is returned.\<close>

definition Run ::
  "emitters \<Rightarrow> nat \<Rightarrow> string list \<Rightarrow> string list \<Rightarrow> writer \<Rightarrow> generator \<Rightarrow> world \<Rightarrow>
     (event list \<times> error option \<times> generator \<times> world) option" where
  "Run em fuel ks1 ks2 wr g w =
     (case run_loop em fuel (g\<lparr>out := []\<rparr>) of
        None \<Rightarrow> None
      | Some (tr, Some err, g1) \<Rightarrow> Some (tr, Some err, g1, w)
      | Some (tr, None, g1) \<Rightarrow>
          (let w1 = w\<lparr>stdout := stdout w @ printHeader ks1 ks2 g1\<rparr>;
               (err, w2) = wr (out g1) w1
           in Some (tr, err, g1, w2)))"


text \<open>The invariant of the worklist: no type is pending twice, and no type is both
  pending and seen.\<close>

definition wl_inv :: "generator \<Rightarrow> bool" where
  "wl_inv g \<longleftrightarrow> distinct (typesUnseen g) \<and> set (typesUnseen g) \<inter> typesSeen g = {}"

text \<open>The types for which a collaborator was called, in the order of the calls.\<close>

definition emitted :: "emitter \<Rightarrow> event list \<Rightarrow> rtype list" where
  "emitted k tr = map event_type (filter (\<lambda>e. event_emitter e = k) tr)"

text \<open>The types the collaborators requested with \<^verbatim>\<open>addType\<close> during the calls, and the
  types a generator knows: the pending and the seen ones.\<close>

definition requested :: "event list \<Rightarrow> rtype list" where
  "requested tr =
     concat (map (\<lambda>e. concat (map (\<lambda>a. case a of CallAddType t \<Rightarrow> [t] | _ \<Rightarrow> [])
                                     (event_actions e))) tr)"

definition known :: "generator \<Rightarrow> rtype set" where
  "known g = set (typesUnseen g) \<union> typesSeen g"

text \<open>Every type a collaborator requests is in \<open>U\<close>.\<close>

definition requests_within :: "emitters \<Rightarrow> rtype set \<Rightarrow> bool" where
  "requests_within em U \<longleftrightarrow>
     (\<forall>t g t'.
        (CallAddType t' \<in> set (fst (genStructDecoder em t g)) \<longrightarrow> t' \<in> U) \<and>
        (CallAddType t' \<in> set (fst (genStructEncoder em t g)) \<longrightarrow> t' \<in> U) \<and>
        (CallAddType t' \<in> set (fst (genStructMarshaller em t g)) \<longrightarrow> t' \<in> U) \<and>
        (CallAddType t' \<in> set (fst (genStructUnmarshaller em t g)) \<longrightarrow> t' \<in> U))"

text \<open>The generator after the loop has popped the last pending type and marked it seen;
  \<open>grows R g g'\<close> is what a collaborator can do to the worklist: it leaves \<^verbatim>\<open>typesSeen\<close>
  and \<^verbatim>\<open>marshallers\<close> alone, keeps every pending type pending, adds pending types from
  \<open>R\<close> only, and keeps the invariant.\<close>

definition popped :: "generator \<Rightarrow> generator" where
  "popped g = g\<lparr>typesUnseen := butlast (typesUnseen g),
                typesSeen := insert (last (typesUnseen g)) (typesSeen g)\<rparr>"

definition grows :: "rtype set \<Rightarrow> generator \<Rightarrow> generator \<Rightarrow> bool" where
  "grows R g g' \<longleftrightarrow>
     typesSeen g' = typesSeen g \<and> marshallers g' = marshallers g \<and>
     (wl_inv g \<longrightarrow> wl_inv g') \<and>
     set (typesUnseen g) \<subseteq> set (typesUnseen g') \<and>
     set (typesUnseen g') \<subseteq> set (typesUnseen g) \<union> R"

text \<open>What ties the reported calls to the collaborators. \<open>replay\<close> goes through a list
  of events from a generator: before an event of the decoder the last pending type is
  popped and marked seen, and it must be the event's type; the collaborator that the event
  names, called for the event's type on the generator at that point, must return exactly
  the event's calls and error; the calls are then performed. The result is the generator
  after the last event, or \<open>None\<close> when an event is not what its collaborator returns.\<close>

definition collaborator_of :: "emitters \<Rightarrow> emitter \<Rightarrow> collaborator" where
  "collaborator_of em k =
     (case k of
        Decoder \<Rightarrow> genStructDecoder em
      | Encoder \<Rightarrow> genStructEncoder em
      | Marshaller \<Rightarrow> genStructMarshaller em
      | Unmarshaller \<Rightarrow> genStructUnmarshaller em)"

definition before_call :: "event \<Rightarrow> generator \<Rightarrow> generator" where
  "before_call e g = (if event_emitter e = Decoder then popped g else g)"

definition call_matches :: "emitters \<Rightarrow> event \<Rightarrow> generator \<Rightarrow> bool" where
  "call_matches em e g \<longleftrightarrow>
     (if event_emitter e = Decoder
      then typesUnseen g \<noteq> [] \<and> event_type e = last (typesUnseen g)
      else True) \<and>
     collaborator_of em (event_emitter e) (event_type e) (before_call e g) =
       (event_actions e, event_error e)"

fun replay :: "emitters \<Rightarrow> event list \<Rightarrow> generator \<Rightarrow> generator option" where
  "replay em [] g = Some g"
| "replay em (e # es) g =
     (if call_matches em e g
      then replay em es (fold perform (event_actions e) (before_call e g))
      else None)"

text \<open>The calls one round makes for a type when no collaborator fails, given the types
  of \<^verbatim>\<open>marshallers\<close>; the collaborator and type of each event; and the text the events'
  calls append to the buffer, in order.\<close>

definition calls_for :: "rtype set \<Rightarrow> rtype \<Rightarrow> (emitter \<times> rtype) list" where
  "calls_for M t =
     [(Decoder, t), (Encoder, t)] @
     (if t \<in> M then [(Marshaller, t), (Unmarshaller, t)] else [])"

definition outline :: "event list \<Rightarrow> (emitter \<times> rtype) list" where
  "outline tr = map (\<lambda>e. (event_emitter e, event_type e)) tr"

definition written :: "event list \<Rightarrow> string" where
  "written tr =
     concat (map (\<lambda>e. concat (map (\<lambda>a. case a of WriteOut s \<Rightarrow> s | _ \<Rightarrow> [])
                                     (event_actions e))) tr)"

text \<open>Registration calls in order, \<^verbatim>\<open>Add\<close> (flag true) or \<^verbatim>\<open>addType\<close> (flag false).\<close>

fun register :: "(bool \<times> rtype) list \<Rightarrow> generator \<Rightarrow> generator" where
  "register [] g = g"
| "register ((toplevel, t) # rs) g = register rs (if toplevel then Add t g else addType t g)"

text \<open>A small run, the concrete instance of the properties below: the type \<open>A\<close> is
  requested with \<^verbatim>\<open>Add\<close>, its decoder discovers the type \<open>B\<close>; every collaborator
  appends a word to the buffer. In \<open>failing_emitters\<close> the encoder of \<open>B\<close> returns an
  error.\<close>

definition example_A :: rtype where
  "example_A = RType 1 ''example.com/app'' ''A'' ''app.A''"

definition example_B :: rtype where
  "example_B = RType 2 ''example.com/app'' ''B'' ''app.B''"

definition example_emitters :: emitters where
  "example_emitters =
     \<lparr> genStructDecoder = (\<lambda>t g.
         ((if t = example_A then [CallAddType example_B] else []) @
          [WriteOut (''dec '' @ Name t @ ''; '')], None)),
       genStructEncoder = (\<lambda>t g. ([WriteOut (''enc '' @ Name t @ ''; '')], None)),
       genStructMarshaller = (\<lambda>t g. ([WriteOut (''mar '' @ Name t @ ''; '')], None)),
       genStructUnmarshaller = (\<lambda>t g. ([WriteOut (''unm '' @ Name t @ ''; '')], None)) \<rparr>"

definition failing_emitters :: emitters where
  "failing_emitters =
     example_emitters\<lparr> genStructEncoder := (\<lambda>t g.
        if t = example_B then ([], Some (Error ''unsupported''))
        else ([WriteOut (''enc '' @ Name t @ ''; '')], None)) \<rparr>"

definition example_generator :: generator where
  "example_generator = Add example_A (SetPkg ''app'' ''example.com/app'' NewGenerator)"

definition empty_world :: world where
  "empty_world = \<lparr> stdout = [], buffer = [] \<rparr>"

subsection \<open>camelToSnake\<close>

text \<open>The loop over the runes of \<open>name\<close>, with the three variables of the source:
  the buffer \<open>ret\<close>, \<open>multipleUpper\<close>, and \<open>lastUpper\<close>, whose value 0 means that no
  upper-case character is buffered.\<close>

fun camelToSnake_loop :: "string \<Rightarrow> string \<Rightarrow> bool \<Rightarrow> char \<Rightarrow> string" where
  "camelToSnake_loop [] ret multipleUpper lastUpper =
     (if lastUpper \<noteq> CHR 0x00 then ret @ [ToLower lastUpper] else ret)"
| "camelToSnake_loop (c # cs) ret multipleUpper lastUpper =
     (let isUpper = (IsUpper c \<or> (lastUpper \<noteq> CHR 0x00 \<and> \<not> IsLower c));
          ret1 = (if lastUpper \<noteq> CHR 0x00
                  then (let firstInRow = \<not> multipleUpper;
                            lastInRow = \<not> isUpper
                        in (if ret \<noteq> [] \<and> (firstInRow \<or> lastInRow) then ret @ ''_'' else ret)
                           @ [ToLower lastUpper])
                  else ret)
      in if isUpper
         then camelToSnake_loop cs ret1 (lastUpper \<noteq> CHR 0x00) c
         else camelToSnake_loop cs (ret1 @ [c]) False (CHR 0x00))"

definition camelToSnake :: "string \<Rightarrow> string" where
  "camelToSnake name = camelToSnake_loop name [] False (CHR 0x00)"

section \<open>Properties\<close>

subsection \<open>camelToSnake on the fixtures\<close>

text \<open>
  C8: the converter maps \<^verbatim>\<open>"ID"\<close> to \<^verbatim>\<open>"id"\<close>, \<^verbatim>\<open>"UserID"\<close> to \<^verbatim>\<open>"user_id"\<close>,
  \<^verbatim>\<open>"HTTPServer"\<close> to \<^verbatim>\<open>"http_server"\<close>, \<^verbatim>\<open>"already_snake"\<close> to itself and the empty
  string to the empty string.
\<close>

theorem camelToSnake_fixtures:
  "camelToSnake ''ID'' = ''id'' \<and>
   camelToSnake ''UserID'' = ''user_id'' \<and>
   camelToSnake ''HTTPServer'' = ''http_server'' \<and>
   camelToSnake ''already_snake'' = ''already_snake'' \<and>
   camelToSnake '''' = ''''"
  by code_simp


subsection \<open>Facts about maps and the alias allocator\<close>

lemma set_range_keys: "set (range_keys ks m) = fst ` set m"
  by (auto simp: range_keys_def)

lemma distinct_range_keys: "distinct (range_keys ks m)"
  by (auto simp: range_keys_def)

lemma set_range_map: "set (range_map ks m) = {(k, v). map_of m k = Some v}"
proof -
  have dom: "\<And>k. k \<in> fst ` set m \<longleftrightarrow> (\<exists>v. map_of m k = Some v)"
    by (metis map_of_eq_None_iff not_Some_eq)
  have "set (range_map ks m) = (\<lambda>k. (k, the (map_of m k))) ` (fst ` set m)"
    by (simp add: range_map_def set_range_keys)
  also have "\<dots> = {(k, v). map_of m k = Some v}"
    using dom by force
  finally show ?thesis .
qed

lemma map_fst_range_map: "map fst (range_map ks m) = range_keys ks m"
  by (simp add: range_map_def comp_def)

lemma distinct_range_map: "distinct (range_map ks m)"
  using distinct_range_keys [of ks m] map_fst_range_map [of ks m]
  by (metis distinct_map)

text \<open>Every enumeration of the map, each entry once, is the \<^verbatim>\<open>range\<close> for some order.\<close>

lemma range_map_any_order:
  assumes "distinct (map fst es)" and "set es = {(k, v). map_of m k = Some v}"
  shows "range_map (map fst es) m = es"
proof -
  have keys: "fst ` set es = fst ` set m"
  proof -
    have "\<And>k. k \<in> fst ` set m \<longleftrightarrow> (\<exists>v. map_of m k = Some v)"
      by (metis map_of_eq_None_iff not_Some_eq)
    then show ?thesis unfolding assms(2) by force
  qed
  have "filter (\<lambda>k. k \<in> fst ` set m) (remdups (map fst es)) = map fst es"
    using assms(1) keys by (simp add: distinct_remdups_id)
  moreover have "filter (\<lambda>k. k \<notin> set (map fst es)) (remdups (map fst m)) = []"
    using keys by (auto simp: filter_empty_conv)
  ultimately have "range_keys (map fst es) m = map fst es"
    by (simp add: range_keys_def)
  moreover have "\<And>e. e \<in> set es \<Longrightarrow> (fst e, the (map_of m (fst e))) = e"
    using assms(2) by auto
  ultimately show ?thesis
    by (simp add: range_map_def comp_def map_idI)
qed

lemma alias_exists_iff: "alias_exists m a \<longleftrightarrow> (\<exists>p. map_of m p = Some a)"
  by (auto simp: alias_exists_def list_ex_iff set_range_map)

lemma imports_ok_iff:
  "imports_ok m \<longleftrightarrow>
     (\<forall>p. map_of m p \<noteq> Some []) \<and>
     (\<forall>p q a. map_of m p = Some a \<and> map_of m q = Some a \<longrightarrow> p = q)"
proof -
  have "distinct (map snd (range_map [] m)) \<longleftrightarrow> inj_on snd (set (range_map [] m))"
    by (simp add: distinct_map distinct_range_map)
  also have "\<dots> \<longleftrightarrow> (\<forall>p q a. map_of m p = Some a \<and> map_of m q = Some a \<longrightarrow> p = q)"
    by (auto simp: inj_on_def set_range_map)
  finally have inj: "distinct (map snd (range_map [] m)) \<longleftrightarrow>
      (\<forall>p q a. map_of m p = Some a \<and> map_of m q = Some a \<longrightarrow> p = q)" .
  have "[] \<in> set (map snd (range_map [] m)) \<longleftrightarrow> (\<exists>p. map_of m p = Some [])"
    by (force simp: set_range_map)
  with inj show ?thesis
    unfolding imports_ok_def by blast
qed

lemma Base_not_Nil: "Base p \<noteq> []"
  by (simp add: Base_def Let_def)

lemma alias_candidate_not_Nil: "alias_candidate p i \<noteq> []"
  by (simp add: alias_candidate_def Base_not_Nil)

lemma pkgAlias_loop_first_free:
  "\<exists>k\<ge>i. pkgAlias_loop m p i = alias_candidate p k \<and>
          \<not> alias_exists m (alias_candidate p k) \<and>
          (\<forall>j. i \<le> j \<and> j < k \<longrightarrow> alias_exists m (alias_candidate p j))"
proof (induction m p i rule: pkgAlias_loop.induct)
  case (1 m p i)
  show ?case
  proof (cases "alias_exists m (alias_candidate p i)")
    case False
    then have "pkgAlias_loop m p i = alias_candidate p i"
      by (subst pkgAlias_loop.simps) (simp add: alias_candidate_def)
    with False show ?thesis by auto
  next
    case True
    then have step: "pkgAlias_loop m p i = pkgAlias_loop m p (i + 1)"
      by (subst pkgAlias_loop.simps) (simp add: alias_candidate_def)
    from True have "\<exists>k\<ge>i + 1. pkgAlias_loop m p (i + 1) = alias_candidate p k \<and>
          \<not> alias_exists m (alias_candidate p k) \<and>
          (\<forall>j. i + 1 \<le> j \<and> j < k \<longrightarrow> alias_exists m (alias_candidate p j))"
      by (intro "1.IH") (simp_all add: alias_candidate_def)
    then obtain k where k: "i + 1 \<le> k" "pkgAlias_loop m p (i + 1) = alias_candidate p k"
        "\<not> alias_exists m (alias_candidate p k)"
        "\<forall>j. i + 1 \<le> j \<and> j < k \<longrightarrow> alias_exists m (alias_candidate p j)"
      by blast
    have "\<forall>j. i \<le> j \<and> j < k \<longrightarrow> alias_exists m (alias_candidate p j)"
    proof (intro allI impI)
      fix j assume "i \<le> j \<and> j < k"
      then have "j = i \<or> (i + 1 \<le> j \<and> j < k)" by arith
      then show "alias_exists m (alias_candidate p j)" using True k(4) by blast
    qed
    with k step show ?thesis by (intro exI [of _ k]) simp
  qed
qed

lemma lookup_string_Some: "lookup_string m p \<noteq> [] \<Longrightarrow> map_of m p = Some (lookup_string m p)"
  by (auto simp: lookup_string_def split: option.splits)

lemma pkgAlias_recorded:
  "map_of (importsMap (snd (pkgAlias p g))) p = Some (fst (pkgAlias p g))"
  by (simp add: pkgAlias_def Let_def lookup_string_Some update_conv')

lemma pkgAlias_not_Nil: "fst (pkgAlias p g) \<noteq> []"
proof (cases "lookup_string (importsMap g) p \<noteq> []")
  case True
  then show ?thesis by (simp add: pkgAlias_def)
next
  case False
  obtain k where "pkgAlias_loop (importsMap g) p 0 = alias_candidate p k"
    using pkgAlias_loop_first_free [of 0 "importsMap g" p] by blast
  with False show ?thesis
    by (simp add: pkgAlias_def Let_def alias_candidate_not_Nil)
qed

lemma pkgAlias_keeps:
  assumes "map_of (importsMap g) q = Some a" and "a \<noteq> []"
  shows "map_of (importsMap (snd (pkgAlias p g))) q = Some a"
  using assms by (auto simp: pkgAlias_def Let_def update_conv' lookup_string_def)

lemma pkgAlias_imports_ok:
  assumes "imports_ok (importsMap g)"
  shows "imports_ok (importsMap (snd (pkgAlias p g)))"
proof (cases "lookup_string (importsMap g) p \<noteq> []")
  case True
  then show ?thesis using assms by (simp add: pkgAlias_def)
next
  case False
  obtain k where k: "pkgAlias_loop (importsMap g) p 0 = alias_candidate p k"
      "\<not> alias_exists (importsMap g) (alias_candidate p k)"
    using pkgAlias_loop_first_free [of 0 "importsMap g" p] by blast
  have new: "importsMap (snd (pkgAlias p g)) = AList.update p (alias_candidate p k) (importsMap g)"
    using False k(1) by (simp add: pkgAlias_def Let_def)
  show ?thesis
    unfolding new imports_ok_iff update_conv'
    using assms k(2) alias_candidate_not_Nil [of p k]
    by (auto simp: imports_ok_iff alias_exists_iff split: if_splits)
qed

lemma pkgAlias_calls_props:
  assumes "imports_ok (importsMap g)" and "pkgAlias_calls ps g = (as, g')"
  shows "imports_ok (importsMap g') \<and> length as = length ps \<and>
         (\<forall>q a. map_of (importsMap g) q = Some a \<longrightarrow> map_of (importsMap g') q = Some a) \<and>
         (\<forall>i<length ps. map_of (importsMap g') (ps ! i) = Some (as ! i))"
  using assms
proof (induction ps arbitrary: g as g')
  case Nil
  then show ?case by simp
next
  case (Cons p ps)
  obtain a g1 where c1: "pkgAlias p g = (a, g1)" by (cases "pkgAlias p g")
  obtain bs g2 where c2: "pkgAlias_calls ps g1 = (bs, g2)" by (cases "pkgAlias_calls ps g1")
  from Cons.prems(2) c1 c2 have eq: "as = a # bs" "g' = g2" by simp_all
  have ok1: "imports_ok (importsMap g1)"
    using pkgAlias_imports_ok [OF Cons.prems(1), of p] c1 by simp
  note IH = Cons.IH [OF ok1 c2]
  have rec: "map_of (importsMap g1) p = Some a"
    using pkgAlias_recorded [of p g] c1 by simp
  have keep: "\<And>q b. map_of (importsMap g) q = Some b \<Longrightarrow> map_of (importsMap g1) q = Some b"
  proof -
    fix q b assume h: "map_of (importsMap g) q = Some b"
    then have "b \<noteq> []" using Cons.prems(1) by (auto simp: imports_ok_iff)
    from pkgAlias_keeps [OF h this, of p] c1 show "map_of (importsMap g1) q = Some b" by simp
  qed
  have idx: "\<forall>i<length (p # ps). map_of (importsMap g2) ((p # ps) ! i) = Some ((a # bs) ! i)"
  proof (intro allI impI)
    fix i assume "i < length (p # ps)"
    then show "map_of (importsMap g2) ((p # ps) ! i) = Some ((a # bs) ! i)"
      using IH rec by (cases i) auto
  qed
  show ?case
    unfolding eq using IH keep idx by auto
qed


subsection \<open>The alias allocator\<close>

text \<open>
  C7: \<^verbatim>\<open>pkgAlias\<close> is idempotent and injective within a run: in any sequence of calls,
  from a table whose aliases are distinct and not empty (as in \<^verbatim>\<open>NewGenerator\<close>), two
  calls return the same alias exactly when they are for the same path, and the table
  holds each returned alias under its path at the end. For a path that is not registered
  the alias is the first free candidate of the sequence base, base1, base2, ... (none of
  the earlier candidates is free), and the call records it under the path.
\<close>

theorem pkgAlias_idempotent_injective_first_free:
  assumes "imports_ok (importsMap g)" and "pkgAlias_calls ps g = (as, g')"
  shows "(\<forall>i<length ps. \<forall>j<length ps. (as ! i = as ! j) = (ps ! i = ps ! j)) \<and>
         (\<forall>i<length ps. lookup_string (importsMap g') (ps ! i) = as ! i) \<and>
         (lookup_string (importsMap g) p = [] \<longrightarrow>
            (\<exists>k. fst (pkgAlias p g) = alias_candidate p k \<and>
                 \<not> alias_exists (importsMap g) (alias_candidate p k) \<and>
                 (\<forall>j<k. alias_exists (importsMap g) (alias_candidate p j)) \<and>
                 importsMap (snd (pkgAlias p g)) =
                   AList.update p (alias_candidate p k) (importsMap g)))"
proof -
  note props = pkgAlias_calls_props [OF assms]
  from props have ok': "imports_ok (importsMap g')"
    and rec: "\<forall>i<length ps. map_of (importsMap g') (ps ! i) = Some (as ! i)"
    by simp_all
  have inj: "\<And>x y a. map_of (importsMap g') x = Some a \<Longrightarrow> map_of (importsMap g') y = Some a \<Longrightarrow> x = y"
    using ok' unfolding imports_ok_iff by blast
  have part1: "\<forall>i<length ps. \<forall>j<length ps. (as ! i = as ! j) = (ps ! i = ps ! j)"
  proof (intro allI impI)
    fix i j assume i: "i < length ps" and j: "j < length ps"
    from rec i have ri: "map_of (importsMap g') (ps ! i) = Some (as ! i)" by simp
    from rec j have rj: "map_of (importsMap g') (ps ! j) = Some (as ! j)" by simp
    show "(as ! i = as ! j) = (ps ! i = ps ! j)"
    proof
      assume "as ! i = as ! j"
      with ri rj show "ps ! i = ps ! j" using inj by metis
    next
      assume "ps ! i = ps ! j"
      with ri rj show "as ! i = as ! j" by simp
    qed
  qed
  have part2: "\<forall>i<length ps. lookup_string (importsMap g') (ps ! i) = as ! i"
    using rec by (simp add: lookup_string_def)
  have part3: "lookup_string (importsMap g) p = [] \<longrightarrow>
            (\<exists>k. fst (pkgAlias p g) = alias_candidate p k \<and>
                 \<not> alias_exists (importsMap g) (alias_candidate p k) \<and>
                 (\<forall>j<k. alias_exists (importsMap g) (alias_candidate p j)) \<and>
                 importsMap (snd (pkgAlias p g)) =
                   AList.update p (alias_candidate p k) (importsMap g))"
  proof
    assume unreg: "lookup_string (importsMap g) p = []"
    obtain k where k: "pkgAlias_loop (importsMap g) p 0 = alias_candidate p k"
        "\<not> alias_exists (importsMap g) (alias_candidate p k)"
        "\<forall>j. 0 \<le> j \<and> j < k \<longrightarrow> alias_exists (importsMap g) (alias_candidate p j)"
      using pkgAlias_loop_first_free [of 0 "importsMap g" p] by blast
    from unreg k(1) have "fst (pkgAlias p g) = alias_candidate p k"
      and "importsMap (snd (pkgAlias p g)) = AList.update p (alias_candidate p k) (importsMap g)"
      by (simp_all add: pkgAlias_def Let_def)
    with k(2,3) show "\<exists>k. fst (pkgAlias p g) = alias_candidate p k \<and>
                 \<not> alias_exists (importsMap g) (alias_candidate p k) \<and>
                 (\<forall>j<k. alias_exists (importsMap g) (alias_candidate p j)) \<and>
                 importsMap (snd (pkgAlias p g)) =
                   AList.update p (alias_candidate p k) (importsMap g)"
      by (intro exI [of _ k]) simp
  qed
  from part1 part2 part3 show ?thesis by blast
qed

theorem pkgAlias_idempotent_injective_first_free_witness:
  "imports_ok (importsMap NewGenerator) \<and>
   fst (pkgAlias_calls [''a/json'', ''b/json'', ''a/json''] NewGenerator) =
     [''json1'', ''json2'', ''json1''] \<and>
   lookup_string (importsMap NewGenerator) ''a/json'' = [] \<and>
   (\<exists>k. fst (pkgAlias ''a/json'' NewGenerator) = alias_candidate ''a/json'' k \<and>
        \<not> alias_exists (importsMap NewGenerator) (alias_candidate ''a/json'' k)) \<and>
   fst (pkgAlias ''a/json'' NewGenerator) = ''json1''"
proof -
  have h1: "imports_ok (importsMap NewGenerator)" by code_simp
  have h2: "pkgAlias_calls [''a/json'', ''b/json'', ''a/json''] NewGenerator =
      (fst (pkgAlias_calls [''a/json'', ''b/json'', ''a/json''] NewGenerator),
       snd (pkgAlias_calls [''a/json'', ''b/json'', ''a/json''] NewGenerator))" by simp
  have h3: "lookup_string (importsMap NewGenerator) ''a/json'' = []" by code_simp
  have e1: "fst (pkgAlias_calls [''a/json'', ''b/json'', ''a/json''] NewGenerator) =
     [''json1'', ''json2'', ''json1'']" by code_simp
  have e2: "fst (pkgAlias ''a/json'' NewGenerator) = ''json1''" by code_simp
  from pkgAlias_idempotent_injective_first_free [OF h1 h2, of "''a/json''"] h3
  have "\<exists>k. fst (pkgAlias ''a/json'' NewGenerator) = alias_candidate ''a/json'' k \<and>
        \<not> alias_exists (importsMap NewGenerator) (alias_candidate ''a/json'' k)"
    by blast
  with h1 h3 e1 e2 show ?thesis by blast
qed

subsection \<open>The textual type reference\<close>

text \<open>
  C10: \<^verbatim>\<open>getType\<close> returns the type's \<^verbatim>\<open>String()\<close> when the type is unnamed or has
  no package path; otherwise its bare name when its package path is the generator's
  output package path; otherwise the alias that \<^verbatim>\<open>pkgAlias\<close> allocates for its package
  path, a dot, and its name; that alias is the one on record for the path after the call
  of \<^verbatim>\<open>pkgAlias\<close>.
\<close>

theorem getType_cases:
  "getType t g =
     (if Name t = [] \<or> PkgPath t = [] then (String t, g)
      else if PkgPath t = pkgPath g then (Name t, g)
      else (fst (pkgAlias (PkgPath t) g) @ ''.'' @ Name t, snd (pkgAlias (PkgPath t) g))) \<and>
   lookup_string (importsMap (snd (pkgAlias (PkgPath t) g))) (PkgPath t) =
     fst (pkgAlias (PkgPath t) g)"
  using pkgAlias_recorded [of "PkgPath t" g]
  by (simp add: getType_def split_beta lookup_string_def)

theorem getType_cases_witness:
  "getType (RType 0 [] [] ''struct { A int }'') (SetPkg ''main'' ''example.com/app'' NewGenerator) =
     (''struct { A int }'', SetPkg ''main'' ''example.com/app'' NewGenerator) \<and>
   getType (RType 1 ''example.com/app'' ''T'' ''app.T'') (SetPkg ''main'' ''example.com/app'' NewGenerator) =
     (''T'', SetPkg ''main'' ''example.com/app'' NewGenerator) \<and>
   fst (getType (RType 2 ''example.com/x/json'' ''U'' ''json.U'')
          (SetPkg ''main'' ''example.com/app'' NewGenerator)) = ''json1.U''"
proof -
  have a: "fst (pkgAlias ''example.com/x/json'' (SetPkg ''main'' ''example.com/app'' NewGenerator)) = ''json1''"
    by code_simp
  have b: "pkgPath (SetPkg ''main'' ''example.com/app'' NewGenerator) = ''example.com/app''"
    by (simp add: SetPkg_def)
  show ?thesis
    using getType_cases [of "RType 0 [] [] ''struct { A int }''" "SetPkg ''main'' ''example.com/app'' NewGenerator"]
      getType_cases [of "RType 1 ''example.com/app'' ''T'' ''app.T''" "SetPkg ''main'' ''example.com/app'' NewGenerator"]
      getType_cases [of "RType 2 ''example.com/x/json'' ''U'' ''json.U''" "SetPkg ''main'' ''example.com/app'' NewGenerator"]
      a b
    by simp
qed


subsection \<open>Facts about the symbol namer\<close>

lemma functionName_loop_free: "map_of m (functionName_loop m name i) = None"
proof (induction m name i rule: functionName_loop.induct)
  case (1 m name i)
  show ?case
  proof (cases "map_of m (name @ Sprint i) = None")
    case True
    then show ?thesis by (subst functionName_loop.simps) simp
  next
    case False
    then have "functionName_loop m name i = functionName_loop m name (i + 1)"
      by (subst functionName_loop.simps) simp
    with False "1.IH" show ?thesis by simp
  qed
qed

lemma functionName_loop_prefix: "prefix name (functionName_loop m name i)"
proof (induction m name i rule: functionName_loop.induct)
  case (1 m name i)
  show ?case
  proof (cases "map_of m (name @ Sprint i) = None")
    case True
    then show ?thesis by (subst functionName_loop.simps) simp
  next
    case False
    then have "functionName_loop m name i = functionName_loop m name (i + 1)"
      by (subst functionName_loop.simps) simp
    with False "1.IH" show ?thesis by simp
  qed
qed

lemma find_range_map_Some:
  assumes "find P (range_map ks m) = Some (n, t)"
  shows "map_of m n = Some t \<and> P (n, t)"
proof -
  from assms obtain i where i: "i < length (range_map ks m)" "range_map ks m ! i = (n, t)"
      "P (range_map ks m ! i)"
    by (auto simp: find_Some_iff)
  from i(1,2) have "(n, t) \<in> set (range_map ks m)" by (metis nth_mem)
  then have "map_of m n = Some t" by (simp add: set_range_map)
  with i show ?thesis by simp
qed

lemma find_range_map_None:
  assumes "find P (range_map ks m) = None" and "map_of m n = Some t"
  shows "\<not> P (n, t)"
  using assms by (auto simp: find_None_iff set_range_map)

text \<open>The three ways \<^verbatim>\<open>functionName\<close> returns.\<close>

lemma functionName_cases:
  obtains
    (shortcut) "map_of (functionNames g) (pre @ safeName t) = None \<or>
                map_of (functionNames g) (pre @ safeName t) = Some t"
               "functionName ks pre t g =
                  (pre @ safeName t,
                   g\<lparr>functionNames := AList.update (pre @ safeName t) t (functionNames g)\<rparr>)"
  | (found) e n where "map_of (functionNames g) (pre @ safeName t) = Some e" "e \<noteq> t"
               "map_of (functionNames g) n = Some t" "prefix pre n"
               "functionName ks pre t g = (n, g)"
  | (minted) e n where "map_of (functionNames g) (pre @ safeName t) = Some e" "e \<noteq> t"
               "\<forall>n'. map_of (functionNames g) n' = Some t \<longrightarrow> \<not> prefix pre n'"
               "map_of (functionNames g) n = None" "prefix (pre @ safeName t) n"
               "functionName ks pre t g =
                  (n, g\<lparr>functionNames := AList.update n t (functionNames g)\<rparr>)"
proof (cases "map_of (functionNames g) (pre @ safeName t) = None \<or>
              map_of (functionNames g) (pre @ safeName t) = Some t")
  case True
  then have "functionName ks pre t g =
      (pre @ safeName t, g\<lparr>functionNames := AList.update (pre @ safeName t) t (functionNames g)\<rparr>)"
    by (simp add: functionName_def Let_def)
  with True show ?thesis by (rule shortcut)
next
  case False
  then obtain e where e: "map_of (functionNames g) (pre @ safeName t) = Some e" "e \<noteq> t"
    by auto
  show ?thesis
  proof (cases "find (\<lambda>(name1, t1). t1 = t \<and> HasPrefix name1 pre) (range_map ks (functionNames g))")
    case None
    have none: "\<forall>n'. map_of (functionNames g) n' = Some t \<longrightarrow> \<not> prefix pre n'"
      using find_range_map_None [OF None] by (auto simp: HasPrefix_def)
    let ?n = "functionName_loop (functionNames g) (pre @ safeName t) 1"
    have "functionName ks pre t g = (?n, g\<lparr>functionNames := AList.update ?n t (functionNames g)\<rparr>)"
      using e None by (simp add: functionName_def Let_def)
    with e none functionName_loop_free [of "functionNames g" "pre @ safeName t" 1]
      functionName_loop_prefix [of "pre @ safeName t" "functionNames g" 1]
    show ?thesis by (rule minted)
  next
    case (Some a)
    obtain n t' where a: "a = (n, t')" by (cases a)
    from find_range_map_Some [OF Some [unfolded a]]
    have "map_of (functionNames g) n = Some t'" "t' = t" "prefix pre n"
      by (auto simp: HasPrefix_def)
    moreover have "functionName ks pre t g = (n, g)"
      using e Some a by (simp add: functionName_def Let_def)
    ultimately show ?thesis using e found by blast
  qed
qed

lemma functionName_owned:
  "map_of (functionNames (snd (functionName ks pre t g))) (fst (functionName ks pre t g)) = Some t"
  by (cases rule: functionName_cases [of g pre t ks]) (simp_all add: update_conv')

lemma functionName_prefix: "prefix pre (fst (functionName ks pre t g))"
proof (cases rule: functionName_cases [of g pre t ks])
  case (minted e n)
  have "prefix pre (pre @ safeName t)" by simp
  with minted(5) have "prefix pre n" by (meson prefix_order.trans)
  with minted(6) show ?thesis by simp
qed simp_all

lemma functionName_keeps:
  assumes "map_of (functionNames g) n = Some t0"
  shows "map_of (functionNames (snd (functionName ks pre t g))) n = Some t0"
  using assms
  by (cases rule: functionName_cases [of g pre t ks]) (auto simp: update_conv')

lemma functionName_calls_props:
  assumes "functionName_calls cs g = (ns, g')"
  shows "length ns = length cs \<and>
         (\<forall>n t. map_of (functionNames g) n = Some t \<longrightarrow> map_of (functionNames g') n = Some t) \<and>
         (\<forall>i<length cs. map_of (functionNames g') (ns ! i) = Some (call_type (cs ! i)) \<and>
                          prefix (call_prefix (cs ! i)) (ns ! i))"
  using assms
proof (induction cs arbitrary: g ns g')
  case Nil
  then show ?case by simp
next
  case (Cons c cs)
  obtain ks pre t where c: "c = (ks, pre, t)" by (cases c)
  obtain n g1 where c1: "functionName ks pre t g = (n, g1)" by (cases "functionName ks pre t g")
  obtain ms g2 where c2: "functionName_calls cs g1 = (ms, g2)"
    by (cases "functionName_calls cs g1")
  from Cons.prems c c1 c2 have eq: "ns = n # ms" "g' = g2" by simp_all
  note IH = Cons.IH [OF c2]
  have own: "map_of (functionNames g1) n = Some t" and pre: "prefix pre n"
    using functionName_owned [of ks pre t g] functionName_prefix [of pre ks t g] c1 by simp_all
  have keep: "\<And>m t0. map_of (functionNames g) m = Some t0 \<Longrightarrow> map_of (functionNames g2) m = Some t0"
  proof -
    fix m t0 assume "map_of (functionNames g) m = Some t0"
    from functionName_keeps [OF this, of ks pre t] c1
    have "map_of (functionNames g1) m = Some t0" by simp
    with IH show "map_of (functionNames g2) m = Some t0" by blast
  qed
  have idx: "\<forall>i<length (c # cs). map_of (functionNames g2) ((n # ms) ! i) = Some (call_type ((c # cs) ! i)) \<and>
                          prefix (call_prefix ((c # cs) ! i)) ((n # ms) ! i)"
  proof (intro allI impI)
    fix i assume "i < length (c # cs)"
    then show "map_of (functionNames g2) ((n # ms) ! i) = Some (call_type ((c # cs) ! i)) \<and>
                          prefix (call_prefix ((c # cs) ! i)) ((n # ms) ! i)"
      using IH own pre c by (cases i) (auto simp: call_type_def call_prefix_def)
  qed
  show ?case unfolding eq using IH keep idx by auto
qed

lemma registry_ok_add:
  assumes ok: "registry_ok P M"
    and inc: "\<forall>p\<in>P. \<forall>q\<in>P. prefix p q \<longrightarrow> p = q"
    and q0: "q0 \<in> P"
    and pre: "prefix q0 n0"
    and canon: "(M(n0 \<mapsto> t0)) (q0 @ safeName t0) \<noteq> None"
    and fresh: "\<forall>n. M n = Some t0 \<longrightarrow> \<not> prefix q0 n"
  shows "registry_ok P (M(n0 \<mapsto> t0))"
proof -
  have same: "\<And>q. q \<in> P \<Longrightarrow> prefix q n0 \<Longrightarrow> q = q0"
  proof -
    fix q assume q: "q \<in> P" "prefix q n0"
    with pre have "prefix q q0 \<or> prefix q0 q" by (meson prefix_same_cases)
    with inc q(1) q0 show "q = q0" by blast
  qed
  have part1: "\<forall>q\<in>P. \<forall>n t. (M(n0 \<mapsto> t0)) n = Some t \<and> prefix q n \<longrightarrow>
      (M(n0 \<mapsto> t0)) (q @ safeName t) \<noteq> None"
  proof (intro ballI allI impI)
    fix q n t assume q: "q \<in> P" and h: "(M(n0 \<mapsto> t0)) n = Some t \<and> prefix q n"
    show "(M(n0 \<mapsto> t0)) (q @ safeName t) \<noteq> None"
    proof (cases "n = n0")
      case True
      with h have "t = t0" "q = q0" using same [OF q] by simp_all
      with canon show ?thesis by simp
    next
      case False
      with h have "M n = Some t" by simp
      with ok q h have "M (q @ safeName t) \<noteq> None" unfolding registry_ok_def by blast
      then show ?thesis by simp
    qed
  qed
  have part2: "\<forall>q\<in>P. \<forall>n n' t. (M(n0 \<mapsto> t0)) n = Some t \<and> (M(n0 \<mapsto> t0)) n' = Some t \<and>
      prefix q n \<and> prefix q n' \<longrightarrow> n = n'"
  proof (intro ballI allI impI)
    fix q n n' t
    assume q: "q \<in> P"
      and h: "(M(n0 \<mapsto> t0)) n = Some t \<and> (M(n0 \<mapsto> t0)) n' = Some t \<and> prefix q n \<and> prefix q n'"
    have one: "\<And>a b. a = n0 \<Longrightarrow> b \<noteq> n0 \<Longrightarrow> (M(n0 \<mapsto> t0)) a = Some t \<Longrightarrow>
        (M(n0 \<mapsto> t0)) b = Some t \<Longrightarrow> prefix q a \<Longrightarrow> prefix q b \<Longrightarrow> False"
    proof -
      fix a b assume a: "a = n0" and b: "b \<noteq> n0" and oa: "(M(n0 \<mapsto> t0)) a = Some t"
        and ob: "(M(n0 \<mapsto> t0)) b = Some t" and pa: "prefix q a" and pb: "prefix q b"
      from a oa have "t = t0" by simp
      moreover from a pa have "q = q0" using same [OF q] by simp
      moreover from b ob have "M b = Some t" by simp
      ultimately show False using fresh pb by blast
    qed
    show "n = n'"
    proof (cases "n = n0"; cases "n' = n0")
      assume "n \<noteq> n0" "n' \<noteq> n0"
      with h have "M n = Some t" "M n' = Some t" by simp_all
      with ok q h show ?thesis unfolding registry_ok_def by blast
    qed (use h one in blast)+
  qed
  from part1 part2 show ?thesis unfolding registry_ok_def by blast
qed

lemma functionName_registry_ok:
  assumes ok: "registry_ok P (map_of (functionNames g))"
    and inc: "\<forall>p\<in>P. \<forall>q\<in>P. prefix p q \<longrightarrow> p = q"
    and pre: "pre \<in> P"
  shows "registry_ok P (map_of (functionNames (snd (functionName ks pre t g))))"
proof (cases rule: functionName_cases [of g pre t ks])
  case shortcut
  show ?thesis
  proof (cases "map_of (functionNames g) (pre @ safeName t) = None")
    case True
    have fresh: "\<forall>n. map_of (functionNames g) n = Some t \<longrightarrow> \<not> prefix pre n"
      using ok pre True unfolding registry_ok_def by blast
    have "registry_ok P ((map_of (functionNames g))(pre @ safeName t \<mapsto> t))"
      by (rule registry_ok_add [OF ok inc pre _ _ fresh]) simp_all
    with shortcut(2) show ?thesis by (simp add: update_conv')
  next
    case False
    with shortcut(1) have "map_of (functionNames g) (pre @ safeName t) = Some t" by simp
    then have "(map_of (functionNames g))(pre @ safeName t \<mapsto> t) = map_of (functionNames g)"
      by (rule map_upd_triv)
    with shortcut(2) ok show ?thesis by (simp add: update_conv')
  qed
next
  case (found e n)
  with ok show ?thesis by simp
next
  case (minted e n)
  have p: "prefix pre n" using minted(5) by (meson prefix_order.trans prefixI)
  have ne: "n \<noteq> pre @ safeName t" using minted(1,4) by auto
  have canon: "((map_of (functionNames g))(n \<mapsto> t)) (pre @ safeName t) \<noteq> None"
    using minted(1) ne by simp
  have "registry_ok P ((map_of (functionNames g))(n \<mapsto> t))"
    by (rule registry_ok_add [OF ok inc pre p canon minted(3)])
  with minted(6) show ?thesis by (simp add: update_conv')
qed

lemma functionName_calls_registry_ok:
  assumes "registry_ok P (map_of (functionNames g))"
    and "\<forall>p\<in>P. \<forall>q\<in>P. prefix p q \<longrightarrow> p = q"
    and "\<forall>c\<in>set cs. call_prefix c \<in> P"
    and "functionName_calls cs g = (ns, g')"
  shows "registry_ok P (map_of (functionNames g'))"
  using assms
proof (induction cs arbitrary: g ns g')
  case Nil
  then show ?case by simp
next
  case (Cons c cs)
  obtain ks pre t where c: "c = (ks, pre, t)" by (cases c)
  obtain n g1 where c1: "functionName ks pre t g = (n, g1)" by (cases "functionName ks pre t g")
  obtain ms g2 where c2: "functionName_calls cs g1 = (ms, g2)"
    by (cases "functionName_calls cs g1")
  from Cons.prems(4) c c1 c2 have eq: "g' = g2" by simp
  have "pre \<in> P" using Cons.prems(3) c by (simp add: call_prefix_def)
  from functionName_registry_ok [OF Cons.prems(1,2) this, of ks t] c1
  have ok1: "registry_ok P (map_of (functionNames g1))" by simp
  have "\<forall>c\<in>set cs. call_prefix c \<in> P" using Cons.prems(3) by simp
  from Cons.IH [OF ok1 Cons.prems(2) this c2] eq show ?case by simp
qed

subsection \<open>The symbol namer\<close>

text \<open>
  C4: in any sequence of calls of \<^verbatim>\<open>functionName\<close>, from any registry, with any prefixes
  and whatever order the map is visited in, two calls for distinct types return distinct
  names (also for two unnamed struct types, whose \<^verbatim>\<open>safeName\<close> is the same); each
  returned name is registered to the type it was returned for at the end, and no name
  registered at the start has changed its type.
\<close>

theorem functionName_distinct_types_distinct_names:
  assumes "functionName_calls cs g = (ns, g')"
  shows "(\<forall>i<length cs. \<forall>j<length cs.
            call_type (cs ! i) \<noteq> call_type (cs ! j) \<longrightarrow> ns ! i \<noteq> ns ! j) \<and>
         (\<forall>i<length cs. map_of (functionNames g') (ns ! i) = Some (call_type (cs ! i))) \<and>
         (\<forall>n t. map_of (functionNames g) n = Some t \<longrightarrow> map_of (functionNames g') n = Some t)"
  using functionName_calls_props [OF assms] by (metis option.inject)


theorem functionName_distinct_types_distinct_names_witness:
  "fst (functionName_calls
          [([], ''easyjson_decode_'', RType 1 [] [] ''struct { A int }''),
           ([], ''easyjson_decode_'', RType 2 [] [] ''struct { B string }'')] NewGenerator) =
     [''easyjson_decode_anonymous'', ''easyjson_decode_anonymous1''] \<and>
   safeName (RType 1 [] [] ''struct { A int }'') = safeName (RType 2 [] [] ''struct { B string }'') \<and>
   map_of (functionNames (snd (functionName_calls
          [([], ''easyjson_decode_'', RType 1 [] [] ''struct { A int }''),
           ([], ''easyjson_decode_'', RType 2 [] [] ''struct { B string }'')] NewGenerator)))
      ''easyjson_decode_anonymous'' = Some (RType 1 [] [] ''struct { A int }'')"
proof -
  let ?cs = "[([], ''easyjson_decode_'', RType 1 [] [] ''struct { A int }''),
              ([], ''easyjson_decode_'', RType 2 [] [] ''struct { B string }'')]"
  have names: "fst (functionName_calls ?cs NewGenerator) =
      [''easyjson_decode_anonymous'', ''easyjson_decode_anonymous1'']"
    by code_simp
  have same: "safeName (RType 1 [] [] ''struct { A int }'') = safeName (RType 2 [] [] ''struct { B string }'')"
    by (simp add: safeName_def)
  have run: "functionName_calls ?cs NewGenerator =
      (fst (functionName_calls ?cs NewGenerator), snd (functionName_calls ?cs NewGenerator))"
    by simp
  from functionName_distinct_types_distinct_names [OF run]
  have "map_of (functionNames (snd (functionName_calls ?cs NewGenerator)))
          (fst (functionName_calls ?cs NewGenerator) ! 0) = Some (call_type (?cs ! 0))"
    by simp
  then have "map_of (functionNames (snd (functionName_calls ?cs NewGenerator)))
      ''easyjson_decode_anonymous'' = Some (RType 1 [] [] ''struct { A int }'')"
    unfolding names by (simp add: call_type_def)
  with names same show ?thesis by simp
qed

text \<open>
  C5, as stated, fails: two calls with the same prefix and type can return different
  names. The unnamed type \<open>RType 2\<close> cannot have \<^verbatim>\<open>easyjson_anonymous\<close>, which belongs to
  \<open>RType 1\<close>, and it owns two names that start with \<^verbatim>\<open>easyjson_\<close>, registered under
  two longer prefixes. The search returns whichever of the two \<^verbatim>\<open>range\<close> visits first:
  the fourth and the fifth call below differ only in that order.
\<close>

theorem functionName_not_repeatable:
  "fst (functionName_calls
          [([], ''easyjson_'', RType 1 [] [] ''struct { A int }''),
           ([], ''easyjson_decode_'', RType 2 [] [] ''struct { B string }''),
           ([], ''easyjson_encode_'', RType 2 [] [] ''struct { B string }''),
           ([''easyjson_decode_anonymous''], ''easyjson_'', RType 2 [] [] ''struct { B string }''),
           ([''easyjson_encode_anonymous''], ''easyjson_'', RType 2 [] [] ''struct { B string }'')]
          NewGenerator) =
     [''easyjson_anonymous'', ''easyjson_decode_anonymous'', ''easyjson_encode_anonymous'',
      ''easyjson_decode_anonymous'', ''easyjson_encode_anonymous'']"
  by code_simp

text \<open>
  C5, amended: when no prefix used in the run is a proper prefix of another one (as for
  \<^verbatim>\<open>easyjson_decode_\<close> and \<^verbatim>\<open>easyjson_encode_\<close>), then from the empty registry of
  \<^verbatim>\<open>NewGenerator\<close> any two calls of the run with the same prefix and the same type return
  the same name, whatever is named in between, in whatever order, and whatever order the
  map is visited in; also after a clash was resolved by a number.
\<close>

theorem functionName_repeatable:
  assumes "functionNames g = []" and "prefixes_incomparable cs"
    and "functionName_calls cs g = (ns, g')"
  shows "\<forall>i<length cs. \<forall>j<length cs.
           call_prefix (cs ! i) = call_prefix (cs ! j) \<and> call_type (cs ! i) = call_type (cs ! j)
           \<longrightarrow> ns ! i = ns ! j"
proof (intro allI impI)
  fix i j
  assume i: "i < length cs" and j: "j < length cs"
    and same: "call_prefix (cs ! i) = call_prefix (cs ! j) \<and> call_type (cs ! i) = call_type (cs ! j)"
  let ?P = "call_prefix ` set cs"
  have inc: "\<forall>p\<in>?P. \<forall>q\<in>?P. prefix p q \<longrightarrow> p = q"
    using assms(2) unfolding prefixes_incomparable_def by blast
  have ok0: "registry_ok ?P (map_of (functionNames g))"
    using assms(1) by (simp add: registry_ok_def)
  have "\<forall>c\<in>set cs. call_prefix c \<in> ?P" by simp
  from functionName_calls_registry_ok [OF ok0 inc this assms(3)]
  have ok: "registry_ok ?P (map_of (functionNames g'))" .
  note props = functionName_calls_props [OF assms(3)]
  from props i have oi: "map_of (functionNames g') (ns ! i) = Some (call_type (cs ! i))"
    and pi: "prefix (call_prefix (cs ! i)) (ns ! i)" by simp_all
  from props j have oj: "map_of (functionNames g') (ns ! j) = Some (call_type (cs ! j))"
    and pj: "prefix (call_prefix (cs ! j)) (ns ! j)" by simp_all
  have "call_prefix (cs ! i) \<in> ?P" using i by simp
  with ok oi oj pi pj same show "ns ! i = ns ! j"
    unfolding registry_ok_def by metis
qed

theorem functionName_repeatable_witness:
  "functionNames NewGenerator = [] \<and>
   prefixes_incomparable
     [([], ''easyjson_decode_'', RType 1 [] [] ''struct { A int }''),
      ([], ''easyjson_decode_'', RType 2 [] [] ''struct { B string }''),
      ([], ''easyjson_encode_'', RType 2 [] [] ''struct { B string }''),
      ([''easyjson_encode_anonymous''], ''easyjson_decode_'', RType 2 [] [] ''struct { B string }'')] \<and>
   fst (functionName_calls
     [([], ''easyjson_decode_'', RType 1 [] [] ''struct { A int }''),
      ([], ''easyjson_decode_'', RType 2 [] [] ''struct { B string }''),
      ([], ''easyjson_encode_'', RType 2 [] [] ''struct { B string }''),
      ([''easyjson_encode_anonymous''], ''easyjson_decode_'', RType 2 [] [] ''struct { B string }'')]
     NewGenerator) =
     [''easyjson_decode_anonymous'', ''easyjson_decode_anonymous1'',
      ''easyjson_encode_anonymous'', ''easyjson_decode_anonymous1'']"
proof -
  let ?cs = "[([], ''easyjson_decode_'', RType 1 [] [] ''struct { A int }''),
      ([], ''easyjson_decode_'', RType 2 [] [] ''struct { B string }''),
      ([], ''easyjson_encode_'', RType 2 [] [] ''struct { B string }''),
      ([''easyjson_encode_anonymous''], ''easyjson_decode_'', RType 2 [] [] ''struct { B string }'')]"
  have h1: "functionNames NewGenerator = []" by (simp add: NewGenerator_def)
  have h2: "prefixes_incomparable ?cs" by code_simp
  have h3: "functionName_calls ?cs NewGenerator =
      (fst (functionName_calls ?cs NewGenerator), snd (functionName_calls ?cs NewGenerator))"
    by simp
  have names: "fst (functionName_calls ?cs NewGenerator) =
     [''easyjson_decode_anonymous'', ''easyjson_decode_anonymous1'',
      ''easyjson_encode_anonymous'', ''easyjson_decode_anonymous1'']"
    by code_simp
  from functionName_repeatable [OF h1 h2 h3]
  have "fst (functionName_calls ?cs NewGenerator) ! 1 = fst (functionName_calls ?cs NewGenerator) ! 3"
    by (simp add: call_prefix_def call_type_def)
  with h1 h2 names show ?thesis by simp
qed


subsection \<open>Facts about the traversal\<close>

lemma grows_refl: "grows R g g"
  by (simp add: grows_def)

lemma grows_trans: "grows R g g1 \<Longrightarrow> grows R g1 g2 \<Longrightarrow> grows R g g2"
  by (auto simp: grows_def)

lemma grows_mono: "grows R g g' \<Longrightarrow> R \<subseteq> R' \<Longrightarrow> grows R' g g'"
  by (auto simp: grows_def)

lemma grows_same_worklist:
  assumes "typesSeen g' = typesSeen g" "marshallers g' = marshallers g"
    "typesUnseen g' = typesUnseen g"
  shows "grows R g g'"
  using assms by (simp add: grows_def wl_inv_def)

lemma addType_grows: "grows {t} g (addType t g)"
  by (auto simp: grows_def addType_def wl_inv_def)

lemma addType_known:
  "t \<in> typesSeen g \<or> t \<in> set (typesUnseen g) \<Longrightarrow> addType t g = g"
  by (auto simp: addType_def)

lemma addType_new:
  "t \<notin> typesSeen g \<Longrightarrow> t \<notin> set (typesUnseen g) \<Longrightarrow>
   addType t g = g\<lparr>typesUnseen := typesUnseen g @ [t]\<rparr>"
  by (simp add: addType_def)

lemma Add_wl_inv: "wl_inv g \<Longrightarrow> wl_inv (Add t g)"
  using addType_grows [of t g] by (auto simp: Add_def Let_def grows_def wl_inv_def)

lemma functionName_worklist:
  "typesSeen (snd (functionName ks pre t g)) = typesSeen g"
  "marshallers (snd (functionName ks pre t g)) = marshallers g"
  "typesUnseen (snd (functionName ks pre t g)) = typesUnseen g"
  by (cases rule: functionName_cases [of g pre t ks]; simp)+

lemma pkgAlias_worklist:
  "typesSeen (snd (pkgAlias p g)) = typesSeen g"
  "marshallers (snd (pkgAlias p g)) = marshallers g"
  "typesUnseen (snd (pkgAlias p g)) = typesUnseen g"
  by (simp_all add: pkgAlias_def Let_def)

lemma getType_worklist:
  "typesSeen (snd (getType t g)) = typesSeen g"
  "marshallers (snd (getType t g)) = marshallers g"
  "typesUnseen (snd (getType t g)) = typesUnseen g"
  by (simp_all add: getType_def split_beta pkgAlias_worklist)

lemma perform_grows: "grows {t'. a = CallAddType t'} g (perform a g)"
proof (cases a)
  case (CallAddType t)
  then show ?thesis using addType_grows [of t g] by simp
qed (simp_all add: grows_same_worklist functionName_worklist pkgAlias_worklist
      getType_worklist uniqueVarName_def Let_def)

lemma fold_perform_grows: "grows {t'. CallAddType t' \<in> set acts} g (fold perform acts g)"
proof (induction acts arbitrary: g)
  case Nil
  show ?case by (simp add: grows_refl)
next
  case (Cons a acts)
  have 1: "grows {t'. CallAddType t' \<in> set (a # acts)} g (perform a g)"
    by (rule grows_mono [OF perform_grows]) auto
  have 2: "grows {t'. CallAddType t' \<in> set (a # acts)} (perform a g) (fold perform acts (perform a g))"
    by (rule grows_mono [OF Cons.IH]) auto
  from grows_trans [OF 1 2] show ?case by simp
qed

lemma invoke_grows:
  assumes "\<And>t'. CallAddType t' \<in> set (fst (c t g)) \<Longrightarrow> t' \<in> R"
  shows "grows R g (snd (snd (invoke c t g)))"
proof -
  have "grows {t'. CallAddType t' \<in> set (fst (c t g))} g (fold perform (fst (c t g)) g)"
    by (rule fold_perform_grows)
  then have "grows R g (fold perform (fst (c t g)) g)"
    by (rule grows_mono) (use assms in auto)
  then show ?thesis by (simp add: invoke_def split_beta)
qed

text \<open>What one round of the loop emits: the six shapes of its trace.\<close>

lemma visit_shapes:
  assumes "visit em t g = (tr, r, g')"
  shows "(\<exists>a1 x. tr = [Event Decoder t a1 (Some x)] \<and> r = Some x) \<or>
         (\<exists>a1 a2 x. tr = [Event Decoder t a1 None, Event Encoder t a2 (Some x)] \<and> r = Some x) \<or>
         (\<exists>a1 a2. tr = [Event Decoder t a1 None, Event Encoder t a2 None] \<and> r = None \<and>
              t \<notin> marshallers g) \<or>
         (\<exists>a1 a2 a3 x. tr = [Event Decoder t a1 None, Event Encoder t a2 None,
                             Event Marshaller t a3 (Some x)] \<and>
              r = Some x \<and> t \<in> marshallers g) \<or>
         (\<exists>a1 a2 a3 a4 x. tr = [Event Decoder t a1 None, Event Encoder t a2 None,
                                Event Marshaller t a3 None, Event Unmarshaller t a4 (Some x)] \<and>
              r = Some x \<and> t \<in> marshallers g) \<or>
         (\<exists>a1 a2 a3 a4. tr = [Event Decoder t a1 None, Event Encoder t a2 None,
                              Event Marshaller t a3 None, Event Unmarshaller t a4 None] \<and>
              r = None \<and> t \<in> marshallers g)"
proof -
  obtain a1 e1 g1 where i1: "invoke (genStructDecoder em) t g = (a1, e1, g1)"
    by (cases "invoke (genStructDecoder em) t g")
  obtain a2 e2 g2 where i2: "invoke (genStructEncoder em) t g1 = (a2, e2, g2)"
    by (cases "invoke (genStructEncoder em) t g1")
  obtain a3 e3 g3 where i3: "invoke (genStructMarshaller em) t g2 = (a3, e3, g3)"
    by (cases "invoke (genStructMarshaller em) t g2")
  obtain a4 e4 g4 where i4: "invoke (genStructUnmarshaller em) t g3 = (a4, e4, g4)"
    by (cases "invoke (genStructUnmarshaller em) t g3")
  have "grows UNIV g g1" using invoke_grows [of "genStructDecoder em" t g UNIV] i1 by simp
  moreover have "grows UNIV g1 g2" using invoke_grows [of "genStructEncoder em" t g1 UNIV] i2 by simp
  ultimately have m: "marshallers g2 = marshallers g" by (simp add: grows_def)
  show ?thesis
    using assms i1 i2 i3 i4 m
    by (auto simp: visit_def split: option.splits if_splits)
qed

lemma visit_grows:
  assumes "requests_within em R" and "visit em t g = (tr, r, g')"
  shows "grows R g g'"
proof -
  obtain a1 e1 g1 where i1: "invoke (genStructDecoder em) t g = (a1, e1, g1)"
    by (cases "invoke (genStructDecoder em) t g")
  obtain a2 e2 g2 where i2: "invoke (genStructEncoder em) t g1 = (a2, e2, g2)"
    by (cases "invoke (genStructEncoder em) t g1")
  obtain a3 e3 g3 where i3: "invoke (genStructMarshaller em) t g2 = (a3, e3, g3)"
    by (cases "invoke (genStructMarshaller em) t g2")
  obtain a4 e4 g4 where i4: "invoke (genStructUnmarshaller em) t g3 = (a4, e4, g4)"
    by (cases "invoke (genStructUnmarshaller em) t g3")
  have s1: "grows R g g1"
    using invoke_grows [of "genStructDecoder em" t g R] i1 assms(1)
    by (simp add: requests_within_def)
  have "grows R g1 g2"
    using invoke_grows [of "genStructEncoder em" t g1 R] i2 assms(1)
    by (simp add: requests_within_def)
  with s1 have s2: "grows R g g2" by (rule grows_trans)
  have "grows R g2 g3"
    using invoke_grows [of "genStructMarshaller em" t g2 R] i3 assms(1)
    by (simp add: requests_within_def)
  with s2 have s3: "grows R g g3" by (rule grows_trans)
  have "grows R g3 g4"
    using invoke_grows [of "genStructUnmarshaller em" t g3 R] i4 assms(1)
    by (simp add: requests_within_def)
  with s3 have s4: "grows R g g4" by (rule grows_trans)
  show ?thesis
    using assms(2) i1 i2 i3 i4 s1 s2 s3 s4
    by (auto simp: visit_def split: option.splits if_splits)
qed

lemma requests_within_UNIV: "requests_within em UNIV"
  by (simp add: requests_within_def)

lemma popped_wl_inv:
  assumes "wl_inv g" and "typesUnseen g \<noteq> []"
  shows "wl_inv (popped g)" and "last (typesUnseen g) \<notin> typesSeen g"
    and "last (typesUnseen g) \<in> set (typesUnseen g)"
proof -
  from assms(2) have sp: "typesUnseen g = butlast (typesUnseen g) @ [last (typesUnseen g)]"
    by simp
  from assms(1) have d: "distinct (butlast (typesUnseen g) @ [last (typesUnseen g)])"
    and dj: "set (butlast (typesUnseen g) @ [last (typesUnseen g)]) \<inter> typesSeen g = {}"
    unfolding wl_inv_def using sp by simp_all
  from d dj show "wl_inv (popped g)" by (auto simp: wl_inv_def popped_def)
  from dj show "last (typesUnseen g) \<notin> typesSeen g" by auto
  from assms(2) show "last (typesUnseen g) \<in> set (typesUnseen g)" by simp
qed

lemma run_loop_done: "typesUnseen g = [] \<Longrightarrow> run_loop em n g = Some ([], None, g)"
  by (cases n) simp_all

lemma run_loop_0: "typesUnseen g \<noteq> [] \<Longrightarrow> run_loop em 0 g = None"
  by simp

lemma run_loop_Suc:
  "typesUnseen g \<noteq> [] \<Longrightarrow>
   run_loop em (Suc k) g =
     (case visit em (last (typesUnseen g)) (popped g) of
        (tr, Some err, g1) \<Rightarrow> Some (tr, Some err, g1)
      | (tr, None, g1) \<Rightarrow>
          (case run_loop em k g1 of
             None \<Rightarrow> None
           | Some (tr', r, g2) \<Rightarrow> Some (tr @ tr', r, g2)))"
  by (simp only: run_loop.simps popped_def Let_def if_False)

declare run_loop.simps [simp del]

text \<open>The loop, one round unfolded: how a result of the loop comes about.\<close>

lemma run_loop_cases:
  assumes "run_loop em n g = Some (tr, r, g')"
  obtains
    (finished) "typesUnseen g = []" "tr = []" "r = None" "g' = g"
  | (failed) k x where "typesUnseen g \<noteq> []" "n = Suc k"
      "visit em (last (typesUnseen g)) (popped g) = (tr, Some x, g')" "r = Some x"
  | (continued) k tr1 g1 tr2 where "typesUnseen g \<noteq> []" "n = Suc k"
      "visit em (last (typesUnseen g)) (popped g) = (tr1, None, g1)"
      "run_loop em k g1 = Some (tr2, r, g')" "tr = tr1 @ tr2"
proof (cases "typesUnseen g = []")
  case True
  have "run_loop em n g = Some ([], None, g)" using True by (rule run_loop_done)
  with assms have "tr = []" "r = None" "g' = g" by simp_all
  with True show ?thesis by (rule finished)
next
  case False
  with assms obtain k where n: "n = Suc k"
    by (cases n) (simp_all add: run_loop_0)
  obtain tr1 r1 g1 where v: "visit em (last (typesUnseen g)) (popped g) = (tr1, r1, g1)"
    by (cases "visit em (last (typesUnseen g)) (popped g)")
  show ?thesis
  proof (cases r1)
    case (Some x)
    with assms False n v have "tr = tr1" "r = Some x" "g' = g1"
      by (simp_all add: run_loop_Suc)
    with v Some have "visit em (last (typesUnseen g)) (popped g) = (tr, Some x, g')" "r = Some x"
      by simp_all
    with False n show ?thesis by (rule failed)
  next
    case None
    with assms False n v obtain tr2 where t2: "run_loop em k g1 = Some (tr2, r, g')" "tr = tr1 @ tr2"
      by (auto simp: run_loop_Suc split: option.splits)
    from v None have "visit em (last (typesUnseen g)) (popped g) = (tr1, None, g1)" by simp
    with False n show ?thesis using t2 by (rule continued)
  qed
qed


lemma emitted_append: "emitted k (xs @ ys) = emitted k xs @ emitted k ys"
  by (simp add: emitted_def)

lemma emitted_Nil: "emitted k [] = []"
  by (simp add: emitted_def)

lemma visit_trace:
  assumes "visit em t g = (tr, r, g')"
  shows "emitted Decoder tr = [t]"
    and "set (emitted k tr) \<subseteq> {t}"
    and "distinct (emitted k tr)"
    and "set (emitted Marshaller tr) \<subseteq> marshallers g"
    and "set (emitted Unmarshaller tr) \<subseteq> marshallers g"
    and "r = None \<Longrightarrow> \<forall>e\<in>set tr. event_error e = None"
    and "r = None \<Longrightarrow> emitted Encoder tr = [t]"
    and "r = None \<Longrightarrow> emitted Marshaller tr = (if t \<in> marshallers g then [t] else [])"
    and "r = None \<Longrightarrow> emitted Unmarshaller tr = (if t \<in> marshallers g then [t] else [])"
    and "tr \<noteq> []"
    and "event_error (last tr) = r"
    and "\<forall>e\<in>set (butlast tr). event_error e = None"
  using visit_shapes [OF assms]
  by (cases k; auto simp: emitted_def)+

lemma popped_fields:
  "typesSeen (popped g) = insert (last (typesUnseen g)) (typesSeen g)"
  "typesUnseen (popped g) = butlast (typesUnseen g)"
  "marshallers (popped g) = marshallers g"
  by (simp_all add: popped_def)

lemma run_loop_worklist:
  assumes "wl_inv g" and "run_loop em n g = Some (tr, r, g')"
  shows "wl_inv g' \<and> marshallers g' = marshallers g \<and>
         typesSeen g' = typesSeen g \<union> set (emitted Decoder tr) \<and>
         distinct (emitted Decoder tr) \<and>
         set (emitted Decoder tr) \<inter> typesSeen g = {} \<and>
         set (typesUnseen g) \<subseteq> set (typesUnseen g') \<union> typesSeen g' \<and>
         (r = None \<longrightarrow> typesUnseen g' = [])"
  using assms
proof (induction n arbitrary: g tr r g')
  case 0
  from "0.prems"(2) show ?case
    by (cases rule: run_loop_cases) (use "0.prems"(1) in \<open>simp_all add: emitted_Nil\<close>)
next
  case (Suc n)
  let ?t = "last (typesUnseen g)"
  from Suc.prems(2) show ?case
  proof (cases rule: run_loop_cases)
    case finished
    with Suc.prems(1) show ?thesis by (simp add: emitted_Nil)
  next
    case (failed k x)
    note pop = popped_wl_inv [OF Suc.prems(1) failed(1)]
    have gr: "grows UNIV (popped g) g'"
      by (rule visit_grows [OF requests_within_UNIV failed(3)])
    have dec: "emitted Decoder tr = [?t]" by (rule visit_trace(1) [OF failed(3)])
    have sub: "set (typesUnseen g) \<subseteq> insert ?t (set (butlast (typesUnseen g)))"
      using failed(1) by (metis append_butlast_last_id insert_is_Un list.simps(15) set_append
          sup_commute subset_refl empty_set sup_bot.right_neutral)
    show ?thesis
      using gr pop dec sub failed(4)
      by (auto simp: grows_def popped_fields)
  next
    case (continued k tr1 g1 tr2)
    note pop = popped_wl_inv [OF Suc.prems(1) continued(1)]
    have gr: "grows UNIV (popped g) g1"
      by (rule visit_grows [OF requests_within_UNIV continued(3)])
    then have inv1: "wl_inv g1" using pop(1) by (simp add: grows_def)
    from continued(2) have k: "k = n" by simp
    note IH = Suc.IH [OF inv1 continued(4) [unfolded k]]
    have dec: "emitted Decoder tr1 = [?t]" by (rule visit_trace(1) [OF continued(3)])
    have sub: "set (typesUnseen g) \<subseteq> insert ?t (set (butlast (typesUnseen g)))"
      using continued(1) by (metis append_butlast_last_id insert_is_Un list.simps(15) set_append
          sup_commute subset_refl empty_set sup_bot.right_neutral)
    have seen1: "typesSeen g1 = insert ?t (typesSeen g)"
      using gr by (simp add: grows_def popped_fields)
    have m1: "marshallers g1 = marshallers g"
      using gr by (simp add: grows_def popped_fields)
    have un1: "set (butlast (typesUnseen g)) \<subseteq> set (typesUnseen g1)"
      using gr by (simp add: grows_def popped_fields)
    from IH have sub1: "set (typesUnseen g1) \<subseteq> set (typesUnseen g') \<union> typesSeen g'"
      and seen': "typesSeen g' = typesSeen g1 \<union> set (emitted Decoder tr2)" by blast+
    have pending: "set (typesUnseen g) \<subseteq> set (typesUnseen g') \<union> typesSeen g'"
      using sub un1 sub1 seen' seen1 by blast
    have rest: "wl_inv g' \<and> marshallers g' = marshallers g \<and>
         typesSeen g' = typesSeen g \<union> set (emitted Decoder (tr1 @ tr2)) \<and>
         distinct (emitted Decoder (tr1 @ tr2)) \<and>
         set (emitted Decoder (tr1 @ tr2)) \<inter> typesSeen g = {} \<and>
         (r = None \<longrightarrow> typesUnseen g' = [])"
      unfolding emitted_append dec
      using IH pop(2) seen1 m1 by auto
    from rest pending show ?thesis unfolding continued(5) by blast
  qed
qed

lemma run_loop_trace:
  assumes "run_loop em n g = Some (tr, r, g')"
  shows "(\<forall>k. set (emitted k tr) \<subseteq> set (emitted Decoder tr)) \<and>
         set (emitted Marshaller tr) \<subseteq> marshallers g \<and>
         set (emitted Unmarshaller tr) \<subseteq> marshallers g \<and>
         (r = None \<longrightarrow>
            (\<forall>e\<in>set tr. event_error e = None) \<and>
            emitted Encoder tr = emitted Decoder tr \<and>
            emitted Marshaller tr = filter (\<lambda>t. t \<in> marshallers g) (emitted Decoder tr) \<and>
            emitted Unmarshaller tr = filter (\<lambda>t. t \<in> marshallers g) (emitted Decoder tr)) \<and>
         (\<forall>x. r = Some x \<longrightarrow> tr \<noteq> [] \<and> event_error (last tr) = Some x) \<and>
         (\<forall>e\<in>set (butlast tr). event_error e = None)"
  using assms
proof (induction n arbitrary: g tr r g')
  case 0
  from "0.prems" show ?case
    by (cases rule: run_loop_cases) (simp_all add: emitted_Nil)
next
  case (Suc n)
  let ?t = "last (typesUnseen g)"
  from Suc.prems show ?case
  proof (cases rule: run_loop_cases)
    case finished
    then show ?thesis by (simp add: emitted_Nil)
  next
    case (failed k x)
    note v = visit_trace [OF failed(3)]
    have "\<forall>k. set (emitted k tr) \<subseteq> set (emitted Decoder tr)"
      using v(1) v(2) by simp
    with v(4,5,10,11,12) failed(4) show ?thesis
      by (simp add: popped_fields)
  next
    case (continued k tr1 g1 tr2)
    note v = visit_trace [OF continued(3)]
    have gr: "grows UNIV (popped g) g1"
      by (rule visit_grows [OF requests_within_UNIV continued(3)])
    have m1: "marshallers g1 = marshallers g"
      using gr by (simp add: grows_def popped_fields)
    from continued(2) have k: "k = n" by simp
    note IH = Suc.IH [OF continued(4) [unfolded k], unfolded m1]
    have a: "\<forall>k. set (emitted k tr) \<subseteq> set (emitted Decoder tr)"
      unfolding continued(5) emitted_append using v(1) v(2) IH by auto
    have b: "set (emitted Marshaller tr) \<subseteq> marshallers g"
      "set (emitted Unmarshaller tr) \<subseteq> marshallers g"
      unfolding continued(5) emitted_append using v(4,5) IH by (auto simp: popped_fields)
    have c: "r = None \<longrightarrow>
            (\<forall>e\<in>set tr. event_error e = None) \<and>
            emitted Encoder tr = emitted Decoder tr \<and>
            emitted Marshaller tr = filter (\<lambda>t. t \<in> marshallers g) (emitted Decoder tr) \<and>
            emitted Unmarshaller tr = filter (\<lambda>t. t \<in> marshallers g) (emitted Decoder tr)"
      unfolding continued(5) emitted_append
      using v(1) v(6-9) IH by (auto simp: popped_fields)
    have d: "\<forall>x. r = Some x \<longrightarrow> tr \<noteq> [] \<and> event_error (last tr) = Some x"
      unfolding continued(5) using IH by auto
    have e: "\<forall>e\<in>set (butlast tr). event_error e = None"
    proof (cases "tr2 = []")
      case True
      with v(12) show ?thesis unfolding continued(5) by simp
    next
      case False
      then have "butlast (tr1 @ tr2) = tr1 @ butlast tr2" by (simp add: butlast_append)
      with v(6) IH show ?thesis unfolding continued(5) by auto
    qed
    from a b c d e show ?thesis by blast
  qed
qed

lemma run_loop_terminates:
  assumes "wl_inv g" and "finite U" and "set (typesUnseen g) \<subseteq> U"
    and "requests_within em U" and "card (U - typesSeen g) \<le> n"
  shows "run_loop em n g \<noteq> None"
  using assms
proof (induction n arbitrary: g)
  case 0
  then have "U \<subseteq> typesSeen g" by simp
  with "0.prems"(1,3) have "\<And>x. x \<in> set (typesUnseen g) \<Longrightarrow> False"
    unfolding wl_inv_def by blast
  then have "typesUnseen g = []" by (cases "typesUnseen g") auto
  then show ?case by (simp add: run_loop_done)
next
  case (Suc n)
  show ?case
  proof (cases "typesUnseen g = []")
    case True
    then show ?thesis by (simp add: run_loop_done)
  next
    case False
    let ?t = "last (typesUnseen g)"
    note pop = popped_wl_inv [OF Suc.prems(1) False]
    obtain tr1 r1 g1 where v: "visit em ?t (popped g) = (tr1, r1, g1)"
      by (cases "visit em ?t (popped g)")
    have gr: "grows U (popped g) g1" by (rule visit_grows [OF Suc.prems(4) v])
    show ?thesis
    proof (cases r1)
      case (Some x)
      with v False show ?thesis by (simp add: run_loop_Suc)
    next
      case None
      have inv1: "wl_inv g1" using gr pop(1) by (simp add: grows_def)
      have seen1: "typesSeen g1 = insert ?t (typesSeen g)"
        using gr by (simp add: grows_def popped_fields)
      have "set (butlast (typesUnseen g)) \<subseteq> set (typesUnseen g)"
        by (meson in_set_butlastD subsetI)
      then have sub1: "set (typesUnseen g1) \<subseteq> U"
        using gr Suc.prems(3) by (auto simp: grows_def popped_fields)
      have tU: "?t \<in> U - typesSeen g" using pop(2,3) Suc.prems(3) by auto
      have "U - typesSeen g1 = (U - typesSeen g) - {?t}" unfolding seen1 by auto
      then have "card (U - typesSeen g1) = card (U - typesSeen g) - 1"
        using tU by simp
      with Suc.prems(5) have "card (U - typesSeen g1) \<le> n" by simp
      from Suc.IH [OF inv1 Suc.prems(2) sub1 Suc.prems(4) this]
      obtain res where "run_loop em n g1 = Some res" by auto
      with v None False show ?thesis
        by (cases res) (simp add: run_loop_Suc split: prod.splits)
    qed
  qed
qed


lemma run_loop_seen:
  assumes "run_loop em n g = Some (tr, r, g')"
  shows "typesSeen g' = typesSeen g \<union> set (emitted Decoder tr) \<and> marshallers g' = marshallers g"
  using assms
proof (induction n arbitrary: g tr r g')
  case 0
  from "0.prems" show ?case
    by (cases rule: run_loop_cases) (simp_all add: emitted_Nil)
next
  case (Suc n)
  from Suc.prems show ?case
  proof (cases rule: run_loop_cases)
    case finished
    then show ?thesis by (simp add: emitted_Nil)
  next
    case (failed k x)
    have "grows UNIV (popped g) g'"
      by (rule visit_grows [OF requests_within_UNIV failed(3)])
    with visit_trace(1) [OF failed(3)] show ?thesis
      by (simp add: grows_def popped_fields)
  next
    case (continued k tr1 g1 tr2)
    have "grows UNIV (popped g) g1"
      by (rule visit_grows [OF requests_within_UNIV continued(3)])
    moreover from continued(2) have "k = n" by simp
    moreover note Suc.IH [OF continued(4) [unfolded \<open>k = n\<close>]] visit_trace(1) [OF continued(3)]
    ultimately show ?thesis
      unfolding continued(5) emitted_append by (auto simp: grows_def popped_fields)
  qed
qed

lemma imports_ok_range:
  assumes "imports_ok m"
  shows "distinct (map snd (range_map ks m))"
proof -
  have "inj_on snd (set (range_map ks m))"
    using assms by (auto simp: inj_on_def set_range_map imports_ok_iff)
  then show ?thesis by (simp add: distinct_map distinct_range_map)
qed

lemma collect_fold_other:
  "a \<notin> snd ` set es \<Longrightarrow>
   map_of (snd (fold (\<lambda>(path, alias) (aliases, byAlias).
                        (aliases @ [alias], AList.update alias path byAlias)) es (as, acc))) a =
   map_of acc a"
  by (induction es arbitrary: as acc) (auto simp: update_conv')

lemma collect_fold_entry:
  "distinct (map snd es) \<Longrightarrow> (p, a) \<in> set es \<Longrightarrow>
   map_of (snd (fold (\<lambda>(path, alias) (aliases, byAlias).
                        (aliases @ [alias], AList.update alias path byAlias)) es (as, acc))) a =
   Some p"
proof (induction es arbitrary: as acc)
  case Nil
  then show ?case by simp
next
  case (Cons e es)
  obtain p' a' where e: "e = (p', a')" by (cases e)
  show ?case
  proof (cases "(p, a) \<in> set es")
    case True
    with Cons show ?thesis by (simp add: e)
  next
    case False
    with Cons.prems e have pa: "p' = p" "a' = a" and "a \<notin> snd ` set es" by auto
    then show ?thesis by (simp add: e collect_fold_other update_conv')
  qed
qed

lemma import_lines_entries:
  assumes "imports_ok (importsMap g)"
  shows "import_lines ks1 ks2 g =
         map (\<lambda>(path, alias). (alias, path)) (range_map ks2 (importsMap g))"
proof -
  let ?es = "range_map ks1 (importsMap g)"
  have d: "distinct (map snd ?es)" using assms by (rule imports_ok_range)
  have "\<And>p a. (p, a) \<in> set (range_map ks2 (importsMap g)) \<Longrightarrow>
      lookup_string (snd (collect_aliases ?es)) a = p"
  proof -
    fix p a assume "(p, a) \<in> set (range_map ks2 (importsMap g))"
    then have "(p, a) \<in> set ?es" by (simp add: set_range_map)
    from collect_fold_entry [OF d this] show "lookup_string (snd (collect_aliases ?es)) a = p"
      by (simp add: collect_aliases_def lookup_string_def)
  qed
  then show ?thesis
    by (auto simp: import_lines_def split_beta Let_def)
qed

lemma grows_known: "grows R g g' \<Longrightarrow> known g \<subseteq> known g'"
  by (auto simp: grows_def known_def)

lemma requested_append: "requested (xs @ ys) = requested xs @ requested ys"
  by (simp add: requested_def)

lemma set_requested:
  "set (requested tr) = {t. \<exists>e\<in>set tr. CallAddType t \<in> set (event_actions e)}"
  by (auto simp: requested_def split: action.splits)

lemma addType_known_after: "t \<in> known (addType t g)"
  by (simp add: addType_def known_def)

lemma fold_perform_requested:
  "CallAddType t \<in> set acts \<Longrightarrow> t \<in> known (fold perform acts g)"
proof (induction acts arbitrary: g)
  case Nil
  then show ?case by simp
next
  case (Cons a acts)
  show ?case
  proof (cases "CallAddType t \<in> set acts")
    case True
    with Cons.IH show ?thesis by simp
  next
    case False
    with Cons.prems have a: "a = CallAddType t" by simp
    have "t \<in> known (addType t g)" by (rule addType_known_after)
    moreover have "known (addType t g) \<subseteq> known (fold perform acts (addType t g))"
      by (rule grows_known [OF fold_perform_grows])
    ultimately show ?thesis using a by auto
  qed
qed

lemma invoke_requested:
  assumes "invoke c t g = (acts, err, g')" and "CallAddType t' \<in> set acts"
  shows "t' \<in> known g'"
  using assms fold_perform_requested [of t' acts g]
  by (auto simp: invoke_def split: prod.splits)

lemma invoke_known:
  assumes "invoke c t g = (acts, err, g')"
  shows "known g \<subseteq> known g'"
  using invoke_grows [of c t g UNIV] assms grows_known [of UNIV g g'] by simp

lemma visit_requested:
  assumes "visit em t g = (tr, r, g')"
  shows "set (requested tr) \<subseteq> known g'"
proof -
  obtain a1 e1 g1 where i1: "invoke (genStructDecoder em) t g = (a1, e1, g1)"
    by (cases "invoke (genStructDecoder em) t g")
  obtain a2 e2 g2 where i2: "invoke (genStructEncoder em) t g1 = (a2, e2, g2)"
    by (cases "invoke (genStructEncoder em) t g1")
  obtain a3 e3 g3 where i3: "invoke (genStructMarshaller em) t g2 = (a3, e3, g3)"
    by (cases "invoke (genStructMarshaller em) t g2")
  obtain a4 e4 g4 where i4: "invoke (genStructUnmarshaller em) t g3 = (a4, e4, g4)"
    by (cases "invoke (genStructUnmarshaller em) t g3")
  note r1 = invoke_requested [OF i1] and r2 = invoke_requested [OF i2]
    and r3 = invoke_requested [OF i3] and r4 = invoke_requested [OF i4]
  note k2 = invoke_known [OF i2] and k3 = invoke_known [OF i3] and k4 = invoke_known [OF i4]
  have c1: "\<And>x. CallAddType x \<in> set a1 \<Longrightarrow> x \<in> known g1 \<and> x \<in> known g2 \<and> x \<in> known g3 \<and> x \<in> known g4"
    using r1 k2 k3 k4 by blast
  have c2: "\<And>x. CallAddType x \<in> set a2 \<Longrightarrow> x \<in> known g2 \<and> x \<in> known g3 \<and> x \<in> known g4"
    using r2 k3 k4 by blast
  have c3: "\<And>x. CallAddType x \<in> set a3 \<Longrightarrow> x \<in> known g3 \<and> x \<in> known g4"
    using r3 k4 by blast
  show ?thesis
    using assms i1 i2 i3 i4 c1 c2 c3 r4
    by (auto simp: visit_def set_requested split: option.splits if_splits)
qed

lemma run_loop_requested:
  assumes "wl_inv g" and "run_loop em n g = Some (tr, r, g')"
  shows "set (requested tr) \<subseteq> known g'"
  using assms
proof (induction n arbitrary: g tr r g')
  case 0
  from "0.prems"(2) show ?case
    by (cases rule: run_loop_cases) (simp_all add: requested_def)
next
  case (Suc n)
  from Suc.prems(2) show ?case
  proof (cases rule: run_loop_cases)
    case finished
    then show ?thesis by (simp add: requested_def)
  next
    case (failed k x)
    then show ?thesis using visit_requested by blast
  next
    case (continued k tr1 g1 tr2)
    note pop = popped_wl_inv [OF Suc.prems(1) continued(1)]
    have gr: "grows UNIV (popped g) g1"
      by (rule visit_grows [OF requests_within_UNIV continued(3)])
    then have inv1: "wl_inv g1" using pop(1) by (simp add: grows_def)
    from continued(2) have k: "k = n" by simp
    note rest = continued(4) [unfolded k]
    note w = run_loop_worklist [OF inv1 rest]
    have kn: "known g1 \<subseteq> known g'" using w by (auto simp: known_def)
    have "set (requested tr1) \<subseteq> known g1" by (rule visit_requested [OF continued(3)])
    moreover have "set (requested tr2) \<subseteq> known g'" by (rule Suc.IH [OF inv1 rest])
    ultimately show ?thesis unfolding continued(5) requested_append using kn by auto
  qed
qed

lemma replay_append:
  "replay em (xs @ ys) g = (case replay em xs g of None \<Rightarrow> None | Some s \<Rightarrow> replay em ys s)"
  by (induction xs arbitrary: g) auto

lemma visit_replay:
  assumes "typesUnseen g \<noteq> []" and "visit em (last (typesUnseen g)) (popped g) = (tr, r, g')"
  shows "replay em tr g = Some g'"
  using assms
  by (auto simp: visit_def invoke_def call_matches_def before_call_def collaborator_of_def
      split: prod.splits option.splits if_splits)

lemma run_loop_replay:
  assumes "run_loop em n g = Some (tr, r, g')"
  shows "replay em tr g = Some g'"
  using assms
proof (induction n arbitrary: g tr r g')
  case 0
  then show ?case by (cases rule: run_loop_cases) simp_all
next
  case (Suc n)
  from Suc.prems show ?case
  proof (cases rule: run_loop_cases)
    case finished
    then show ?thesis by simp
  next
    case (failed k x)
    then show ?thesis using visit_replay by blast
  next
    case (continued k tr1 g1 tr2)
    from continued(2) have k: "k = n" by simp
    have "replay em tr1 g = Some g1" by (rule visit_replay [OF continued(1,3)])
    moreover have "replay em tr2 g1 = Some g'" by (rule Suc.IH [OF continued(4) [unfolded k]])
    ultimately show ?thesis unfolding continued(5) by (simp add: replay_append)
  qed
qed

lemma outline_append: "outline (xs @ ys) = outline xs @ outline ys"
  by (simp add: outline_def)

lemma visit_outline:
  assumes "visit em t g = (tr, r, g')"
  shows "prefix (outline tr) (calls_for (marshallers g) t)"
    and "r = None \<Longrightarrow> outline tr = calls_for (marshallers g) t"
  using visit_shapes [OF assms]
  by (auto simp: outline_def calls_for_def)

lemma run_loop_outline:
  assumes "run_loop em n g = Some (tr, r, g')"
  shows "prefix (outline tr) (concat (map (calls_for (marshallers g)) (emitted Decoder tr))) \<and>
         (r = None \<longrightarrow> outline tr = concat (map (calls_for (marshallers g)) (emitted Decoder tr)))"
  using assms
proof (induction n arbitrary: g tr r g')
  case 0
  then show ?case by (cases rule: run_loop_cases) (simp_all add: outline_def emitted_Nil)
next
  case (Suc n)
  from Suc.prems show ?case
  proof (cases rule: run_loop_cases)
    case finished
    then show ?thesis by (simp add: outline_def emitted_Nil)
  next
    case (failed k x)
    note o = visit_outline(1) [OF failed(3)]
    note d = visit_trace(1) [OF failed(3)]
    from o d failed(4) show ?thesis by (simp add: popped_fields)
  next
    case (continued k tr1 g1 tr2)
    from continued(2) have k: "k = n" by simp
    have gr: "grows UNIV (popped g) g1"
      by (rule visit_grows [OF requests_within_UNIV continued(3)])
    have m1: "marshallers g1 = marshallers g"
      using gr by (simp add: grows_def popped_fields)
    note IH = Suc.IH [OF continued(4) [unfolded k], unfolded m1]
    have o: "outline tr1 = calls_for (marshallers g) (last (typesUnseen g))"
      using visit_outline(2) [OF continued(3)] by (simp add: popped_fields)
    note d = visit_trace(1) [OF continued(3)]
    show ?thesis
      unfolding continued(5) outline_append emitted_append d o
      using IH by simp
  qed
qed

lemma perform_out:
  "out (perform a g) = out g @ (case a of WriteOut s \<Rightarrow> s | _ \<Rightarrow> [])"
proof (cases a)
  case (CallFunctionName ks pre t)
  then show ?thesis by (cases rule: functionName_cases [of g pre t ks]) simp_all
qed (simp_all add: addType_def pkgAlias_def getType_def uniqueVarName_def Let_def split_beta)

lemma fold_perform_out:
  "out (fold perform acts g) =
   out g @ concat (map (\<lambda>a. case a of WriteOut s \<Rightarrow> s | _ \<Rightarrow> []) acts)"
  by (induction acts arbitrary: g) (simp_all add: perform_out)

lemma replay_out:
  "replay em tr g = Some g' \<Longrightarrow> out g' = out g @ written tr"
proof (induction tr arbitrary: g)
  case Nil
  then show ?case by (simp add: written_def)
next
  case (Cons e tr)
  from Cons.prems have m: "call_matches em e g"
    and r: "replay em tr (fold perform (event_actions e) (before_call e g)) = Some g'"
    by (simp_all split: if_splits)
  have "out (before_call e g) = out g" by (simp add: before_call_def popped_def)
  with Cons.IH [OF r] show ?case
    by (simp add: fold_perform_out written_def)
qed

lemma register_fresh:
  assumes "typesSeen g = {}" and "wl_inv g" and "marshallers g \<subseteq> set (typesUnseen g)"
  shows "typesSeen (register rs g) = {} \<and> wl_inv (register rs g) \<and>
         marshallers (register rs g) \<subseteq> set (typesUnseen (register rs g)) \<and>
         marshallers (register rs g) = marshallers g \<union> {t. (True, t) \<in> set rs}"
  using assms
proof (induction rs arbitrary: g)
  case Nil
  then show ?case by simp
next
  case (Cons a rs)
  obtain toplevel t where a: "a = (toplevel, t)" by (cases a)
  let ?g = "if toplevel then Add t g else addType t g"
  have gr: "grows {t} g (addType t g)" by (rule addType_grows)
  have kn: "t \<in> known (addType t g)" by (rule addType_known_after)
  have seen: "typesSeen ?g = {}"
    using gr Cons.prems(1) by (simp add: Add_def Let_def grows_def)
  have inv: "wl_inv ?g"
    using gr Cons.prems(2) Add_wl_inv [OF Cons.prems(2), of t] by (simp add: grows_def)
  have m: "marshallers ?g = marshallers g \<union> (if toplevel then {t} else {})"
    using gr by (auto simp: Add_def Let_def grows_def)
  have pend: "set (typesUnseen g) \<subseteq> set (typesUnseen ?g)"
    using gr by (simp add: Add_def Let_def grows_def)
  have tp: "toplevel \<Longrightarrow> t \<in> set (typesUnseen ?g)"
    using kn gr Cons.prems(1) by (simp add: Add_def Let_def grows_def known_def)
  have sub: "marshallers ?g \<subseteq> set (typesUnseen ?g)"
    using m pend tp Cons.prems(3) by (auto split: if_splits)
  from Cons.IH [OF seen inv sub] m show ?case
    unfolding a by (auto split: if_splits)
qed

lemma NewGenerator_fresh:
  "typesSeen NewGenerator = {}" "wl_inv NewGenerator"
  "marshallers NewGenerator \<subseteq> set (typesUnseen NewGenerator)" "marshallers NewGenerator = {}"
  by (simp_all add: NewGenerator_def wl_inv_def)

lemma replay_last:
  assumes "replay em tr g = Some g'" and "tr \<noteq> []"
  shows "\<exists>s. replay em (butlast tr) g = Some s \<and> call_matches em (last tr) s \<and>
             g' = fold perform (event_actions (last tr)) (before_call (last tr) s)"
proof -
  from assms(2) have tr: "tr = butlast tr @ [last tr]" by simp
  from assms(1) have "replay em (butlast tr @ [last tr]) g = Some g'" using tr by simp
  then show ?thesis
    by (auto simp: replay_append split: option.splits if_splits)
qed

text \<open>\<^verbatim>\<open>path.Base\<close> on a few paths.\<close>

lemma Base_examples:
  "Base ''github.com/mailru/easyjson/jwriter'' = ''jwriter'' \<and> Base ''encoding/json'' = ''json'' \<and>
   Base ''a/b/'' = ''b'' \<and> Base ''abc'' = ''abc'' \<and> Base [] = ''.'' \<and> Base ''///'' = ''/''"
  by code_simp

lemma worklist_core:
  assumes "wl_inv g"
  shows "wl_inv (addType t g) \<and> wl_inv (Add t g) \<and>
         typesUnseen (Add t g) = typesUnseen (addType t g) \<and>
         typesSeen (Add t g) = typesSeen (addType t g) \<and>
         (t \<in> typesSeen g \<or> t \<in> set (typesUnseen g) \<longrightarrow> addType t g = g) \<and>
         (t \<notin> typesSeen g \<and> t \<notin> set (typesUnseen g) \<longrightarrow>
            addType t g = g\<lparr>typesUnseen := typesUnseen g @ [t]\<rparr>) \<and>
         (\<forall>tr r g'. run_loop em n g = Some (tr, r, g') \<longrightarrow>
            wl_inv g' \<and>
            distinct (emitted Decoder tr) \<and>
            set (emitted Decoder tr) \<inter> typesSeen g = {} \<and>
            typesSeen g' = typesSeen g \<union> set (emitted Decoder tr) \<and>
            (r = None \<longrightarrow>
               typesUnseen g' = [] \<and>
               set (typesUnseen g) \<subseteq> set (emitted Decoder tr) \<and>
               set (requested tr) \<subseteq> typesSeen g' \<and>
               emitted Encoder tr = emitted Decoder tr)) \<and>
         (finite U \<and> set (typesUnseen g) \<subseteq> U \<and> requests_within em U \<and>
          card (U - typesSeen g) \<le> n \<longrightarrow> run_loop em n g \<noteq> None)"
proof -
  have a: "wl_inv (addType t g)"
    using addType_grows [of t g] assms by (simp add: grows_def)
  have b: "wl_inv (Add t g)" using assms by (rule Add_wl_inv)
  have b': "typesUnseen (Add t g) = typesUnseen (addType t g) \<and>
      typesSeen (Add t g) = typesSeen (addType t g)"
    by (simp add: Add_def Let_def)
  have c: "t \<in> typesSeen g \<or> t \<in> set (typesUnseen g) \<longrightarrow> addType t g = g"
    using addType_known by blast
  have d: "t \<notin> typesSeen g \<and> t \<notin> set (typesUnseen g) \<longrightarrow>
            addType t g = g\<lparr>typesUnseen := typesUnseen g @ [t]\<rparr>"
    using addType_new by blast
  have e: "\<forall>tr r g'. run_loop em n g = Some (tr, r, g') \<longrightarrow>
            wl_inv g' \<and>
            distinct (emitted Decoder tr) \<and>
            set (emitted Decoder tr) \<inter> typesSeen g = {} \<and>
            typesSeen g' = typesSeen g \<union> set (emitted Decoder tr) \<and>
            (r = None \<longrightarrow>
               typesUnseen g' = [] \<and>
               set (typesUnseen g) \<subseteq> set (emitted Decoder tr) \<and>
               set (requested tr) \<subseteq> typesSeen g' \<and>
               emitted Encoder tr = emitted Decoder tr)"
  proof (intro allI impI)
    fix tr r g' assume run: "run_loop em n g = Some (tr, r, g')"
    note w = run_loop_worklist [OF assms run]
    note tc = run_loop_trace [OF run]
    have "r = None \<longrightarrow> set (typesUnseen g) \<subseteq> set (emitted Decoder tr)"
    proof
      assume "r = None"
      with w have "set (typesUnseen g) \<subseteq> typesSeen g \<union> set (emitted Decoder tr)" by auto
      moreover have "set (typesUnseen g) \<inter> typesSeen g = {}" using assms by (simp add: wl_inv_def)
      ultimately show "set (typesUnseen g) \<subseteq> set (emitted Decoder tr)" by blast
    qed
    moreover have "r = None \<longrightarrow> set (requested tr) \<subseteq> typesSeen g'"
    proof
      assume "r = None"
      with w have "known g' = typesSeen g'" by (simp add: known_def)
      with run_loop_requested [OF assms run] show "set (requested tr) \<subseteq> typesSeen g'" by simp
    qed
    ultimately have pend: "r = None \<longrightarrow>
        set (typesUnseen g) \<subseteq> set (emitted Decoder tr) \<and> set (requested tr) \<subseteq> typesSeen g'"
      by blast
    from pend w tc show "wl_inv g' \<and>
            distinct (emitted Decoder tr) \<and>
            set (emitted Decoder tr) \<inter> typesSeen g = {} \<and>
            typesSeen g' = typesSeen g \<union> set (emitted Decoder tr) \<and>
            (r = None \<longrightarrow>
               typesUnseen g' = [] \<and>
               set (typesUnseen g) \<subseteq> set (emitted Decoder tr) \<and>
               set (requested tr) \<subseteq> typesSeen g' \<and>
               emitted Encoder tr = emitted Decoder tr)"
      by blast
  qed
  have f: "finite U \<and> set (typesUnseen g) \<subseteq> U \<and> requests_within em U \<and>
          card (U - typesSeen g) \<le> n \<longrightarrow> run_loop em n g \<noteq> None"
    using run_loop_terminates [OF assms] by blast
  from a b b' c d e f show ?thesis by blast
qed

lemma marshallers_core:
  assumes "run_loop em n g = Some (tr, r, g')"
  shows "set (emitted Marshaller tr) \<subseteq> marshallers g \<and>
         set (emitted Unmarshaller tr) \<subseteq> marshallers g \<and>
         marshallers g' = marshallers g \<and>
         marshallers (addType t g) = marshallers g \<and>
         marshallers (Add t g) = insert t (marshallers g) \<and>
         (r = None \<longrightarrow>
            emitted Encoder tr = emitted Decoder tr \<and>
            emitted Marshaller tr = filter (\<lambda>t. t \<in> marshallers g) (emitted Decoder tr) \<and>
            emitted Unmarshaller tr = filter (\<lambda>t. t \<in> marshallers g) (emitted Decoder tr)) \<and>
         (r = None \<and> wl_inv g \<and> marshallers g \<subseteq> set (typesUnseen g) \<longrightarrow>
            set (emitted Marshaller tr) = marshallers g \<and> distinct (emitted Marshaller tr) \<and>
            set (emitted Unmarshaller tr) = marshallers g \<and> distinct (emitted Unmarshaller tr))"
proof -
  note tc = run_loop_trace [OF assms]
  note sn = run_loop_seen [OF assms]
  have a: "marshallers (addType t g) = marshallers g"
    using addType_grows [of t g] by (simp add: grows_def)
  then have b: "marshallers (Add t g) = insert t (marshallers g)"
    by (simp add: Add_def Let_def)
  have c: "r = None \<and> wl_inv g \<and> marshallers g \<subseteq> set (typesUnseen g) \<longrightarrow>
            set (emitted Marshaller tr) = marshallers g \<and> distinct (emitted Marshaller tr) \<and>
            set (emitted Unmarshaller tr) = marshallers g \<and> distinct (emitted Unmarshaller tr)"
  proof
    assume h: "r = None \<and> wl_inv g \<and> marshallers g \<subseteq> set (typesUnseen g)"
    then have inv: "wl_inv g" and r: "r = None" by simp_all
    note w = run_loop_worklist [OF inv assms]
    from w r have "set (typesUnseen g) \<subseteq> typesSeen g \<union> set (emitted Decoder tr)" by auto
    moreover have "set (typesUnseen g) \<inter> typesSeen g = {}" using inv by (simp add: wl_inv_def)
    ultimately have "marshallers g \<subseteq> set (emitted Decoder tr)" using h by blast
    moreover from w have "distinct (emitted Decoder tr)" by simp
    moreover from tc r
    have "emitted Marshaller tr = filter (\<lambda>t. t \<in> marshallers g) (emitted Decoder tr)"
      and "emitted Unmarshaller tr = filter (\<lambda>t. t \<in> marshallers g) (emitted Decoder tr)"
      by simp_all
    ultimately show "set (emitted Marshaller tr) = marshallers g \<and> distinct (emitted Marshaller tr) \<and>
            set (emitted Unmarshaller tr) = marshallers g \<and> distinct (emitted Unmarshaller tr)"
      by auto
  qed
  from tc sn a b c show ?thesis by blast
qed

lemma abort_core:
  assumes "run_loop em n (g\<lparr>out := []\<rparr>) = Some (tr, r, g')"
  shows "(\<forall>i<length tr. \<forall>x. event_error (tr ! i) = Some x \<longrightarrow>
            i = length tr - 1 \<and> r = Some x \<and>
            Run em n ks1 ks2 wr g w = Some (tr, Some x, g', w)) \<and>
         (\<forall>x. r = Some x \<longrightarrow>
            tr \<noteq> [] \<and> event_error (last tr) = Some x \<and>
            Run em n ks1 ks2 wr g w = Some (tr, Some x, g', w)) \<and>
         typesSeen g' = typesSeen g \<union> set (emitted Decoder tr)"
proof -
  note tc = run_loop_trace [OF assms]
  have sn: "typesSeen g' = typesSeen g \<union> set (emitted Decoder tr)"
    using run_loop_seen [OF assms] by simp
  have run: "\<And>x. r = Some x \<Longrightarrow> Run em n ks1 ks2 wr g w = Some (tr, Some x, g', w)"
    using assms by (simp add: Run_def)
  have lastr: "tr \<noteq> [] \<Longrightarrow> event_error (last tr) = r"
  proof (cases r)
    case None
    assume "tr \<noteq> []"
    then have "last tr \<in> set tr" by simp
    moreover from tc None have "\<forall>e\<in>set tr. event_error e = None" by simp
    ultimately show ?thesis using None by simp
  next
    case (Some x)
    with tc show ?thesis by simp
  qed
  have a: "\<forall>i<length tr. \<forall>x. event_error (tr ! i) = Some x \<longrightarrow>
            i = length tr - 1 \<and> r = Some x \<and>
            Run em n ks1 ks2 wr g w = Some (tr, Some x, g', w)"
  proof (intro allI impI)
    fix i x assume i: "i < length tr" and e: "event_error (tr ! i) = Some x"
    have last: "i = length tr - 1"
    proof (rule ccontr)
      assume "i \<noteq> length tr - 1"
      with i have ib: "i < length (butlast tr)" by simp
      then have "butlast tr ! i \<in> set (butlast tr)" by (rule nth_mem)
      moreover from ib have "butlast tr ! i = tr ! i" by (rule nth_butlast)
      ultimately have "tr ! i \<in> set (butlast tr)" by simp
      with tc have "event_error (tr ! i) = None" by blast
      with e show False by simp
    qed
    from i have ne: "tr \<noteq> []" by auto
    with last have "tr ! i = last tr" by (simp add: last_conv_nth)
    with e lastr [OF ne] have "r = Some x" by simp
    with last run show "i = length tr - 1 \<and> r = Some x \<and>
            Run em n ks1 ks2 wr g w = Some (tr, Some x, g', w)" by simp
  qed
  have b: "\<forall>x. r = Some x \<longrightarrow>
            tr \<noteq> [] \<and> event_error (last tr) = Some x \<and>
            Run em n ks1 ks2 wr g w = Some (tr, Some x, g', w)"
    using tc run by simp
  from a b sn show ?thesis by blast
qed

subsection \<open>The traversal\<close>

text \<open>
  C3, as stated, fails in a run in which a collaborator returns an error: \<^verbatim>\<open>Run\<close>
  returns at once, so the loop ends while a type is still pending, and that type is never
  visited. Here \<open>A\<close> and \<open>B\<close> are pending, \<open>B\<close> is popped first and its encoder fails.
\<close>

theorem error_run_leaves_type_pending:
  "wl_inv (Add example_B example_generator) \<and>
   typesUnseen (Add example_B example_generator) = [example_A, example_B] \<and>
   (case run_loop failing_emitters 2 (Add example_B example_generator) of
      None \<Rightarrow> False
    | Some (tr, r, g') \<Rightarrow>
        r = Some (Error ''unsupported'') \<and> emitted Decoder tr = [example_B] \<and>
        typesUnseen g' = [example_A] \<and> example_A \<notin> typesSeen g')"
  by code_simp

text \<open>
  C3, amended. From a generator whose worklist satisfies the invariant (no type pending
  twice, none both pending and seen; \<^verbatim>\<open>NewGenerator\<close> satisfies it), \<^verbatim>\<open>addType\<close> and
  \<^verbatim>\<open>Add\<close> keep the invariant (\<^verbatim>\<open>Add\<close> does to the worklist what \<^verbatim>\<open>addType\<close> does),
  \<^verbatim>\<open>addType\<close> of a type that is seen or pending changes nothing, and a new type is appended
  to the pending list. Whenever the loop of \<^verbatim>\<open>Run\<close> returns: every reported call is the call
  of that collaborator on the generator as it was then, with the calls and the error the
  collaborator returned, a type being popped and marked seen exactly before its decoder is
  called (\<open>replay\<close>); the calls follow, type by type, the order decoder, encoder and, for a
  type of \<^verbatim>\<open>marshallers\<close>, marshaller, unmarshaller; the invariant holds again; the visited
  types are pairwise distinct, none was seen before, and the seen types are the old ones
  and the visited ones. When the loop returns without an error: no type is pending, every
  type that was pending at the start and every type a collaborator requested during the
  run has been visited, and for every visited type decoder and encoder were called, once.
  The loop does return when the types that can be requested are finitely many: as many
  rounds as there are such types not yet seen are enough.
\<close>

theorem worklist_each_type_once:
  assumes "wl_inv g"
  shows "wl_inv (addType t g) \<and> wl_inv (Add t g) \<and>
         typesUnseen (Add t g) = typesUnseen (addType t g) \<and>
         typesSeen (Add t g) = typesSeen (addType t g) \<and>
         (t \<in> typesSeen g \<or> t \<in> set (typesUnseen g) \<longrightarrow> addType t g = g) \<and>
         (t \<notin> typesSeen g \<and> t \<notin> set (typesUnseen g) \<longrightarrow>
            addType t g = g\<lparr>typesUnseen := typesUnseen g @ [t]\<rparr>) \<and>
         (\<forall>tr r g'. run_loop em n g = Some (tr, r, g') \<longrightarrow>
            replay em tr g = Some g' \<and>
            prefix (outline tr) (concat (map (calls_for (marshallers g)) (emitted Decoder tr))) \<and>
            wl_inv g' \<and>
            distinct (emitted Decoder tr) \<and>
            set (emitted Decoder tr) \<inter> typesSeen g = {} \<and>
            typesSeen g' = typesSeen g \<union> set (emitted Decoder tr) \<and>
            (r = None \<longrightarrow>
               typesUnseen g' = [] \<and>
               set (typesUnseen g) \<subseteq> set (emitted Decoder tr) \<and>
               set (requested tr) \<subseteq> typesSeen g' \<and>
               outline tr = concat (map (calls_for (marshallers g)) (emitted Decoder tr)) \<and>
               emitted Encoder tr = emitted Decoder tr)) \<and>
         (finite U \<and> set (typesUnseen g) \<subseteq> U \<and> requests_within em U \<and>
          card (U - typesSeen g) \<le> n \<longrightarrow> run_loop em n g \<noteq> None)"
proof -
  note core = worklist_core [OF assms, of t em n U]
  have e: "\<forall>tr r g'. run_loop em n g = Some (tr, r, g') \<longrightarrow>
            replay em tr g = Some g' \<and>
            prefix (outline tr) (concat (map (calls_for (marshallers g)) (emitted Decoder tr))) \<and>
            wl_inv g' \<and>
            distinct (emitted Decoder tr) \<and>
            set (emitted Decoder tr) \<inter> typesSeen g = {} \<and>
            typesSeen g' = typesSeen g \<union> set (emitted Decoder tr) \<and>
            (r = None \<longrightarrow>
               typesUnseen g' = [] \<and>
               set (typesUnseen g) \<subseteq> set (emitted Decoder tr) \<and>
               set (requested tr) \<subseteq> typesSeen g' \<and>
               outline tr = concat (map (calls_for (marshallers g)) (emitted Decoder tr)) \<and>
               emitted Encoder tr = emitted Decoder tr)"
  proof (intro allI impI)
    fix tr r g' assume run: "run_loop em n g = Some (tr, r, g')"
    from core run have old: "wl_inv g' \<and>
            distinct (emitted Decoder tr) \<and>
            set (emitted Decoder tr) \<inter> typesSeen g = {} \<and>
            typesSeen g' = typesSeen g \<union> set (emitted Decoder tr) \<and>
            (r = None \<longrightarrow>
               typesUnseen g' = [] \<and>
               set (typesUnseen g) \<subseteq> set (emitted Decoder tr) \<and>
               set (requested tr) \<subseteq> typesSeen g' \<and>
               emitted Encoder tr = emitted Decoder tr)"
      by blast
    note rp = run_loop_replay [OF run]
    note ol = run_loop_outline [OF run]
    from old rp ol show "replay em tr g = Some g' \<and>
            prefix (outline tr) (concat (map (calls_for (marshallers g)) (emitted Decoder tr))) \<and>
            wl_inv g' \<and>
            distinct (emitted Decoder tr) \<and>
            set (emitted Decoder tr) \<inter> typesSeen g = {} \<and>
            typesSeen g' = typesSeen g \<union> set (emitted Decoder tr) \<and>
            (r = None \<longrightarrow>
               typesUnseen g' = [] \<and>
               set (typesUnseen g) \<subseteq> set (emitted Decoder tr) \<and>
               set (requested tr) \<subseteq> typesSeen g' \<and>
               outline tr = concat (map (calls_for (marshallers g)) (emitted Decoder tr)) \<and>
               emitted Encoder tr = emitted Decoder tr)"
      by blast
  qed
  from core e show ?thesis by blast
qed

theorem worklist_each_type_once_witness:
  "wl_inv example_generator \<and>
   (case run_loop example_emitters 2 example_generator of
      None \<Rightarrow> False
    | Some (tr, r, g') \<Rightarrow>
        r = None \<and> emitted Decoder tr = [example_A, example_B] \<and> typesUnseen g' = [] \<and>
        typesSeen g' = {example_A, example_B} \<and> requested tr = [example_B] \<and>
        outline tr = [(Decoder, example_A), (Encoder, example_A), (Marshaller, example_A),
                      (Unmarshaller, example_A), (Decoder, example_B), (Encoder, example_B)] \<and>
        replay example_emitters tr example_generator = Some g') \<and>
   addType example_A example_generator = example_generator"
proof -
  have h: "wl_inv example_generator"
    by (simp add: wl_inv_def example_generator_def Add_def addType_def SetPkg_def
        NewGenerator_def Let_def)
  note T = worklist_each_type_once [OF h, of example_A example_emitters 2 "{example_A, example_B}"]
  have pend: "typesUnseen example_generator = [example_A]"
    and seen: "typesSeen example_generator = {}"
    and mar: "marshallers example_generator = {example_A}"
    by (simp_all add: example_generator_def Add_def addType_def SetPkg_def
        NewGenerator_def Let_def)
  have req: "requests_within example_emitters {example_A, example_B}"
    by (auto simp: requests_within_def example_emitters_def split: if_splits)
  have ne: "example_A \<noteq> example_B" by (simp add: example_A_def example_B_def)
  have "card ({example_A, example_B} - typesSeen example_generator) \<le> 2"
    using ne by (simp add: seen)
  with T pend req have "run_loop example_emitters 2 example_generator \<noteq> None" by simp
  then obtain tr r g' where run: "run_loop example_emitters 2 example_generator = Some (tr, r, g')"
    by (cases "run_loop example_emitters 2 example_generator") auto
  have dec: "(case run_loop example_emitters 2 example_generator of
      None \<Rightarrow> False
    | Some (tr, r, g') \<Rightarrow>
        r = None \<and> emitted Decoder tr = [example_A, example_B] \<and> requested tr = [example_B])"
    by code_simp
  with run have r: "r = None" and d: "emitted Decoder tr = [example_A, example_B]"
    and q: "requested tr = [example_B]" by simp_all
  from T run have blk: "replay example_emitters tr example_generator = Some g' \<and>
      typesSeen g' = typesSeen example_generator \<union> set (emitted Decoder tr) \<and>
      (r = None \<longrightarrow> typesUnseen g' = [] \<and>
         outline tr = concat (map (calls_for (marshallers example_generator)) (emitted Decoder tr)))"
    by blast
  with r d seen mar ne have "typesUnseen g' = []" "typesSeen g' = {example_A, example_B}"
    "replay example_emitters tr example_generator = Some g'"
    "outline tr = [(Decoder, example_A), (Encoder, example_A), (Marshaller, example_A),
                      (Unmarshaller, example_A), (Decoder, example_B), (Encoder, example_B)]"
    by (auto simp: calls_for_def)
  with run r d q have "(case run_loop example_emitters 2 example_generator of
      None \<Rightarrow> False
    | Some (tr, r, g') \<Rightarrow>
        r = None \<and> emitted Decoder tr = [example_A, example_B] \<and> typesUnseen g' = [] \<and>
        typesSeen g' = {example_A, example_B} \<and> requested tr = [example_B] \<and>
        outline tr = [(Decoder, example_A), (Encoder, example_A), (Marshaller, example_A),
                      (Unmarshaller, example_A), (Decoder, example_B), (Encoder, example_B)] \<and>
        replay example_emitters tr example_generator = Some g')" by simp
  moreover from T pend have "addType example_A example_generator = example_generator" by simp
  ultimately show ?thesis using h by blast
qed

text \<open>
  C6, as stated, fails in a run in which a collaborator returns an error: \<open>A\<close> and \<open>B\<close>
  are both requested with \<^verbatim>\<open>Add\<close>, the encoder of \<open>B\<close> fails, and neither marshaller nor
  unmarshaller is called for any type (nor decoder or encoder for \<open>A\<close>).
\<close>

theorem error_run_skips_requested_marshaller:
  "marshallers (Add example_B example_generator) = {example_A, example_B} \<and>
   typesUnseen (Add example_B example_generator) = [example_A, example_B] \<and>
   (case run_loop failing_emitters 2 (Add example_B example_generator) of
      None \<Rightarrow> False
    | Some (tr, r, g') \<Rightarrow>
        r = Some (Error ''unsupported'') \<and>
        outline tr = [(Decoder, example_B), (Encoder, example_B)] \<and>
        emitted Marshaller tr = [] \<and> emitted Unmarshaller tr = [])"
  by code_simp

text \<open>
  C6, amended. In every run the marshaller and the unmarshaller are called only for types
  in \<^verbatim>\<open>marshallers\<close>, which only \<^verbatim>\<open>Add\<close> extends (\<^verbatim>\<open>addType\<close> and the loop leave it
  alone; after registration calls on a new generator it holds exactly the types given to
  \<^verbatim>\<open>Add\<close>, and all of them are pending). Every reported call is the call of that
  collaborator, with what it returned (\<open>replay\<close>). In a run without error the calls are
  exactly, for each visited type in order: decoder, encoder and, only if the type is in
  \<^verbatim>\<open>marshallers\<close>, marshaller and unmarshaller. So a type that was never given to \<^verbatim>\<open>Add\<close>
  gets decoder and encoder and never marshaller or unmarshaller, and when the types of
  \<^verbatim>\<open>marshallers\<close> are pending at the start, marshaller and unmarshaller are called for
  exactly these types, each once.
\<close>

theorem marshallers_only_for_requested:
  assumes "run_loop em n g = Some (tr, r, g')"
  shows "replay em tr g = Some g' \<and>
         prefix (outline tr) (concat (map (calls_for (marshallers g)) (emitted Decoder tr))) \<and>
         set (emitted Marshaller tr) \<subseteq> marshallers g \<and>
         set (emitted Unmarshaller tr) \<subseteq> marshallers g \<and>
         marshallers g' = marshallers g \<and>
         marshallers (addType t g) = marshallers g \<and>
         marshallers (Add t g) = insert t (marshallers g) \<and>
         marshallers (register rs NewGenerator) = {t. (True, t) \<in> set rs} \<and>
         wl_inv (register rs NewGenerator) \<and>
         marshallers (register rs NewGenerator) \<subseteq> set (typesUnseen (register rs NewGenerator)) \<and>
         (r = None \<longrightarrow>
            outline tr = concat (map (calls_for (marshallers g)) (emitted Decoder tr)) \<and>
            emitted Encoder tr = emitted Decoder tr \<and>
            emitted Marshaller tr = filter (\<lambda>t. t \<in> marshallers g) (emitted Decoder tr) \<and>
            emitted Unmarshaller tr = filter (\<lambda>t. t \<in> marshallers g) (emitted Decoder tr)) \<and>
         (r = None \<and> wl_inv g \<and> marshallers g \<subseteq> set (typesUnseen g) \<longrightarrow>
            set (emitted Marshaller tr) = marshallers g \<and> distinct (emitted Marshaller tr) \<and>
            set (emitted Unmarshaller tr) = marshallers g \<and> distinct (emitted Unmarshaller tr))"
proof -
  note core = marshallers_core [OF assms, of t]
  note rp = run_loop_replay [OF assms]
  note ol = run_loop_outline [OF assms]
  have reg: "marshallers (register rs NewGenerator) = {t. (True, t) \<in> set rs} \<and>
         wl_inv (register rs NewGenerator) \<and>
         marshallers (register rs NewGenerator) \<subseteq> set (typesUnseen (register rs NewGenerator))"
    using register_fresh [OF NewGenerator_fresh(1,2,3), of rs] NewGenerator_fresh(4) by auto
  from core rp ol reg show ?thesis by blast
qed

theorem marshallers_only_for_requested_witness:
  "(case run_loop example_emitters 2 example_generator of
      None \<Rightarrow> False
    | Some (tr, r, g') \<Rightarrow>
        r = None \<and> emitted Decoder tr = [example_A, example_B] \<and>
        emitted Encoder tr = [example_A, example_B] \<and>
        emitted Marshaller tr = [example_A] \<and> emitted Unmarshaller tr = [example_A] \<and>
        outline tr = [(Decoder, example_A), (Encoder, example_A), (Marshaller, example_A),
                      (Unmarshaller, example_A), (Decoder, example_B), (Encoder, example_B)] \<and>
        replay example_emitters tr example_generator = Some g') \<and>
   marshallers example_generator = {example_A} \<and> wl_inv example_generator \<and>
   marshallers (register [(True, example_A), (False, example_B)] NewGenerator) = {example_A}"
proof -
  have m: "marshallers example_generator = {example_A}"
    and pend: "typesUnseen example_generator = [example_A]"
    and inv: "wl_inv example_generator"
    by (simp_all add: wl_inv_def example_generator_def Add_def addType_def SetPkg_def
        NewGenerator_def Let_def)
  have dec: "(case run_loop example_emitters 2 example_generator of
      None \<Rightarrow> False
    | Some (tr, r, g') \<Rightarrow> r = None \<and> emitted Decoder tr = [example_A, example_B])"
    by code_simp
  then obtain tr r g' where run: "run_loop example_emitters 2 example_generator = Some (tr, r, g')"
    by (cases "run_loop example_emitters 2 example_generator") auto
  with dec have r: "r = None" and d: "emitted Decoder tr = [example_A, example_B]" by simp_all
  have ne: "example_B \<noteq> example_A" by (simp add: example_A_def example_B_def)
  note T = marshallers_only_for_requested [OF run, of example_A
      "[(True, example_A), (False, example_B)]"]
  from T r d m ne
  have "emitted Encoder tr = [example_A, example_B]" "emitted Marshaller tr = [example_A]"
    "emitted Unmarshaller tr = [example_A]"
    "outline tr = [(Decoder, example_A), (Encoder, example_A), (Marshaller, example_A),
                      (Unmarshaller, example_A), (Decoder, example_B), (Encoder, example_B)]"
    "replay example_emitters tr example_generator = Some g'"
    by (simp_all add: calls_for_def)
  moreover from T
  have "marshallers (register [(True, example_A), (False, example_B)] NewGenerator) = {example_A}"
    by auto
  ultimately show ?thesis using run r d m inv by simp
qed

text \<open>
  C9: every reported call is the call of that collaborator on the generator as it was
  then, with the calls and the error the collaborator returned (\<open>replay\<close>). A call that
  returns an error is the last call of the run: the loop's result is that very error,
  \<^verbatim>\<open>Run\<close> returns it, prints no header and writes nothing, and the generator it leaves is
  the one after the failing collaborator's own calls: nothing is popped or called after
  it. No type is marked seen other than those the decoder was called for, and a type that
  was pending at the start and was not visited is still pending. In particular, when the
  decoder of the first popped type returns an error, \<^verbatim>\<open>Run\<close> returns that error after this
  one call.
\<close>

theorem first_error_aborts_run:
  assumes "run_loop em n (g\<lparr>out := []\<rparr>) = Some (tr, r, g')"
  shows "replay em tr (g\<lparr>out := []\<rparr>) = Some g' \<and>
         (\<forall>i<length tr. \<forall>x. event_error (tr ! i) = Some x \<longrightarrow>
            i = length tr - 1 \<and> r = Some x \<and>
            Run em n ks1 ks2 wr g w = Some (tr, Some x, g', w)) \<and>
         (\<forall>x. r = Some x \<longrightarrow>
            tr \<noteq> [] \<and> event_error (last tr) = Some x \<and>
            Run em n ks1 ks2 wr g w = Some (tr, Some x, g', w) \<and>
            (\<exists>s. replay em (butlast tr) (g\<lparr>out := []\<rparr>) = Some s \<and>
                 collaborator_of em (event_emitter (last tr)) (event_type (last tr))
                     (before_call (last tr) s) = (event_actions (last tr), Some x) \<and>
                 g' = fold perform (event_actions (last tr)) (before_call (last tr) s))) \<and>
         typesSeen g' = typesSeen g \<union> set (emitted Decoder tr) \<and>
         prefix (outline tr) (concat (map (calls_for (marshallers g)) (emitted Decoder tr))) \<and>
         (wl_inv g \<longrightarrow>
            set (typesUnseen g) \<subseteq> set (typesUnseen g') \<union> set (emitted Decoder tr) \<and>
            set (typesUnseen g') \<inter> set (emitted Decoder tr) = {}) \<and>
         (typesUnseen g \<noteq> [] \<and>
          genStructDecoder em (last (typesUnseen g)) (popped (g\<lparr>out := []\<rparr>)) = (acts, Some x0)
          \<longrightarrow> Run em (Suc k) ks1 ks2 wr g w =
                Some ([Event Decoder (last (typesUnseen g)) acts (Some x0)], Some x0,
                      fold perform acts (popped (g\<lparr>out := []\<rparr>)), w))"
proof -
  note core = abort_core [OF assms, of ks1 ks2 wr w]
  note rp = run_loop_replay [OF assms]
  have ol: "prefix (outline tr) (concat (map (calls_for (marshallers g)) (emitted Decoder tr)))"
    using run_loop_outline [OF assms] by simp
  have fin: "\<forall>x. r = Some x \<longrightarrow>
            (\<exists>s. replay em (butlast tr) (g\<lparr>out := []\<rparr>) = Some s \<and>
                 collaborator_of em (event_emitter (last tr)) (event_type (last tr))
                     (before_call (last tr) s) = (event_actions (last tr), Some x) \<and>
                 g' = fold perform (event_actions (last tr)) (before_call (last tr) s))"
  proof (intro allI impI)
    fix x assume rx: "r = Some x"
    with core have ne: "tr \<noteq> []" and le: "event_error (last tr) = Some x" by simp_all
    from replay_last [OF rp ne] obtain s where
      s: "replay em (butlast tr) (g\<lparr>out := []\<rparr>) = Some s" "call_matches em (last tr) s"
        "g' = fold perform (event_actions (last tr)) (before_call (last tr) s)"
      by blast
    from s(2) le have "collaborator_of em (event_emitter (last tr)) (event_type (last tr))
                     (before_call (last tr) s) = (event_actions (last tr), Some x)"
      by (simp add: call_matches_def)
    with s show "\<exists>s. replay em (butlast tr) (g\<lparr>out := []\<rparr>) = Some s \<and>
                 collaborator_of em (event_emitter (last tr)) (event_type (last tr))
                     (before_call (last tr) s) = (event_actions (last tr), Some x) \<and>
                 g' = fold perform (event_actions (last tr)) (before_call (last tr) s)"
      by blast
  qed
  have pend: "wl_inv g \<longrightarrow>
            set (typesUnseen g) \<subseteq> set (typesUnseen g') \<union> set (emitted Decoder tr) \<and>
            set (typesUnseen g') \<inter> set (emitted Decoder tr) = {}"
  proof
    assume "wl_inv g"
    then have inv: "wl_inv (g\<lparr>out := []\<rparr>)" by (simp add: wl_inv_def)
    note w = run_loop_worklist [OF inv assms]
    from w have "wl_inv g'" and seen: "typesSeen g' = typesSeen g \<union> set (emitted Decoder tr)"
      and sub: "set (typesUnseen g) \<subseteq> set (typesUnseen g') \<union> typesSeen g'"
      by auto
    moreover have "set (typesUnseen g) \<inter> typesSeen g = {}"
      using \<open>wl_inv g\<close> by (simp add: wl_inv_def)
    ultimately show "set (typesUnseen g) \<subseteq> set (typesUnseen g') \<union> set (emitted Decoder tr) \<and>
            set (typesUnseen g') \<inter> set (emitted Decoder tr) = {}"
      unfolding wl_inv_def by blast
  qed
  have one: "typesUnseen g \<noteq> [] \<and>
          genStructDecoder em (last (typesUnseen g)) (popped (g\<lparr>out := []\<rparr>)) = (acts, Some x0)
          \<longrightarrow> Run em (Suc k) ks1 ks2 wr g w =
                Some ([Event Decoder (last (typesUnseen g)) acts (Some x0)], Some x0,
                      fold perform acts (popped (g\<lparr>out := []\<rparr>)), w)"
  proof
    assume h: "typesUnseen g \<noteq> [] \<and>
          genStructDecoder em (last (typesUnseen g)) (popped (g\<lparr>out := []\<rparr>)) = (acts, Some x0)"
    then have ne: "typesUnseen (g\<lparr>out := []\<rparr>) \<noteq> []" by simp
    have v: "visit em (last (typesUnseen g)) (popped (g\<lparr>out := []\<rparr>)) =
        ([Event Decoder (last (typesUnseen g)) acts (Some x0)], Some x0,
         fold perform acts (popped (g\<lparr>out := []\<rparr>)))"
      using h by (simp add: visit_def invoke_def)
    have "run_loop em (Suc k) (g\<lparr>out := []\<rparr>) =
        Some ([Event Decoder (last (typesUnseen g)) acts (Some x0)], Some x0,
              fold perform acts (popped (g\<lparr>out := []\<rparr>)))"
      using v by (simp add: run_loop_Suc [OF ne])
    then show "Run em (Suc k) ks1 ks2 wr g w =
                Some ([Event Decoder (last (typesUnseen g)) acts (Some x0)], Some x0,
                      fold perform acts (popped (g\<lparr>out := []\<rparr>)), w)"
      by (simp add: Run_def)
  qed
  from core rp ol fin pend one show ?thesis by blast
qed

theorem first_error_aborts_run_witness:
  "(case Run failing_emitters 2 [] [] bytes_Buffer (Add example_B example_generator) empty_world of
      None \<Rightarrow> False
    | Some (tr, r, g', w') \<Rightarrow>
        map (\<lambda>e. (event_emitter e, event_type e, event_error e)) tr =
          [(Decoder, example_B, None), (Encoder, example_B, Some (Error ''unsupported''))] \<and>
        r = Some (Error ''unsupported'') \<and> w' = empty_world \<and>
        typesUnseen g' = [example_A] \<and> typesSeen g' = {example_B} \<and>
        replay failing_emitters tr ((Add example_B example_generator)\<lparr>out := []\<rparr>) = Some g') \<and>
   genStructEncoder failing_emitters example_B
       (popped ((Add example_B example_generator)\<lparr>out := []\<rparr>)
          \<lparr>out := ''dec B; ''\<rparr>) = ([], Some (Error ''unsupported''))"
proof -
  let ?g = "Add example_B example_generator"
  let ?res = "run_loop failing_emitters 2 (?g\<lparr>out := []\<rparr>)"
  have ev: "(case ?res of None \<Rightarrow> False
     | Some (tr, r, g') \<Rightarrow>
         map (\<lambda>e. (event_emitter e, event_type e, event_error e)) tr =
           [(Decoder, example_B, None), (Encoder, example_B, Some (Error ''unsupported''))] \<and>
         r = Some (Error ''unsupported'') \<and> typesUnseen g' = [example_A])"
    by code_simp
  then obtain tr r g' where run: "?res = Some (tr, r, g')"
    by (cases ?res) auto
  with ev have tr: "map (\<lambda>e. (event_emitter e, event_type e, event_error e)) tr =
           [(Decoder, example_B, None), (Encoder, example_B, Some (Error ''unsupported''))]"
    and r: "r = Some (Error ''unsupported'')" and p: "typesUnseen g' = [example_A]" by simp_all
  have seen: "typesSeen ?g = {}"
    by (simp add: example_generator_def Add_def addType_def SetPkg_def NewGenerator_def Let_def)
  have d: "emitted Decoder tr = [example_B]"
  proof -
    have "emitted Decoder tr =
        map (fst \<circ> snd) (filter (\<lambda>x. fst x = Decoder)
          (map (\<lambda>e. (event_emitter e, event_type e, event_error e)) tr))"
      by (simp add: emitted_def filter_map comp_def)
    then show ?thesis unfolding tr by simp
  qed
  note T = first_error_aborts_run [OF run, of "[]" "[]" bytes_Buffer empty_world]
  from T r have "Run failing_emitters 2 [] [] bytes_Buffer ?g empty_world =
      Some (tr, Some (Error ''unsupported''), g', empty_world)" by simp
  moreover from T have "replay failing_emitters tr (?g\<lparr>out := []\<rparr>) = Some g'" by blast
  moreover from T d seen have "typesSeen g' = {example_B}" by simp
  moreover have "genStructEncoder failing_emitters example_B
       (popped (?g\<lparr>out := []\<rparr>)\<lparr>out := ''dec B; ''\<rparr>) = ([], Some (Error ''unsupported''))"
    by (simp add: failing_emitters_def)
  ultimately show ?thesis using tr p by simp
qed

subsection \<open>The header\<close>

text \<open>What \<^verbatim>\<open>Run\<close> does when no collaborator fails: the body is the text the collaborators
  appended, in the order of their calls; the header goes to standard output and the body
  to the writer.\<close>

lemma Run_without_error:
  assumes "run_loop em n (g\<lparr>out := []\<rparr>) = Some (tr, None, g')"
  shows "Run em n ks1 ks2 wr g w =
           Some (tr, fst (wr (out g') (w\<lparr>stdout := stdout w @ printHeader ks1 ks2 g'\<rparr>)), g',
                 snd (wr (out g') (w\<lparr>stdout := stdout w @ printHeader ks1 ks2 g'\<rparr>)))"
    and "out g' = written tr"
    and "Run em n ks1 ks2 bytes_Buffer g w =
           Some (tr, None, g',
                 w\<lparr>stdout := stdout w @ printHeader ks1 ks2 g', buffer := buffer w @ written tr\<rparr>)"
    and "Run em n ks1 ks2 os_Stdout g w =
           Some (tr, None, g', w\<lparr>stdout := stdout w @ printHeader ks1 ks2 g' @ written tr\<rparr>)"
proof -
  show o: "out g' = written tr"
    using replay_out [OF run_loop_replay [OF assms]] by simp
  show "Run em n ks1 ks2 wr g w =
           Some (tr, fst (wr (out g') (w\<lparr>stdout := stdout w @ printHeader ks1 ks2 g'\<rparr>)), g',
                 snd (wr (out g') (w\<lparr>stdout := stdout w @ printHeader ks1 ks2 g'\<rparr>)))"
    using assms by (simp add: Run_def split_beta Let_def)
  show "Run em n ks1 ks2 bytes_Buffer g w =
           Some (tr, None, g',
                 w\<lparr>stdout := stdout w @ printHeader ks1 ks2 g', buffer := buffer w @ written tr\<rparr>)"
    using assms o by (simp add: Run_def split_beta Let_def bytes_Buffer_def)
  show "Run em n ks1 ks2 os_Stdout g w =
           Some (tr, None, g', w\<lparr>stdout := stdout w @ printHeader ks1 ks2 g' @ written tr\<rparr>)"
    using assms o by (simp add: Run_def split_beta Let_def os_Stdout_def)
qed

text \<open>
  C1: the output that \<^verbatim>\<open>Run\<close> delivers to the writer it is given is the body alone. The
  header (package clause, import list, the \<^verbatim>\<open>json.RawMessage\<close> marker) is printed to
  standard output, so with a writer other than standard output, here an in-memory buffer,
  the written output has no header before the body.
\<close>

theorem Run_header_not_in_written_output:
  "(case Run example_emitters 2 [] [] bytes_Buffer example_generator empty_world of
      None \<Rightarrow> False
    | Some (tr, r, g', w') \<Rightarrow>
        r = None \<and>
        buffer w' = ''dec A; enc A; mar A; unm A; dec B; enc B; '' \<and>
        stdout w' =
          ''package  app'' @ [CHR 0x0A, CHR 0x0A] @
          ''import ('' @ [CHR 0x0A] @
          ''  jwriter '' @ [CHR 0x22] @ ''github.com/mailru/easyjson/jwriter'' @ [CHR 0x22, CHR 0x0A] @
          ''  jlexer '' @ [CHR 0x22] @ ''github.com/mailru/easyjson/jlexer'' @ [CHR 0x22, CHR 0x0A] @
          ''  json '' @ [CHR 0x22] @ ''encoding/json'' @ [CHR 0x22, CHR 0x0A] @
          '')'' @ [CHR 0x0A, CHR 0x0A] @
          ''var _ = json.RawMessage{} // suppress unused package warning'' @ [CHR 0x0A, CHR 0x0A] \<and>
        buffer w' \<noteq> stdout w' @ written tr)"
  by code_simp

text \<open>
  C2: the import list is not sorted by alias. \<^verbatim>\<open>printHeader\<close> sorts \<^verbatim>\<open>aliases\<close> and then
  ranges over \<^verbatim>\<open>g.imports\<close> again, so the lines come in the order in which that
  \<^verbatim>\<open>range\<close> visits the map. For the table of \<^verbatim>\<open>NewGenerator\<close>, visited as jwriter,
  jlexer, json, the header lists the imports in that order.
\<close>

theorem printHeader_imports_in_range_order:
  "map fst (import_lines [] [pkgWriter, pkgLexer, ''encoding/json''] NewGenerator) =
     [''jwriter'', ''jlexer'', ''json''] \<and>
   sort [''jwriter'', ''jlexer'', ''json''] = [''jlexer'', ''json'', ''jwriter''] \<and>
   \<not> sorted (map fst (import_lines [] [pkgWriter, pkgLexer, ''encoding/json''] NewGenerator)) \<and>
   printHeader [] [pkgWriter, pkgLexer, ''encoding/json''] NewGenerator =
     Println [''package '', []] @ Println [] @ Println [''import (''] @
     ''  jwriter '' @ Quote pkgWriter @ [CHR 0x0A] @
     ''  jlexer '' @ Quote pkgLexer @ [CHR 0x0A] @
     ''  json '' @ Quote ''encoding/json'' @ [CHR 0x0A] @
     Println ['')''] @ Println [[]] @
     Println [''var _ = json.RawMessage{} // suppress unused package warning''] @ Println []"
  by code_simp

end
